theory Spec2Isabelle
  imports Main
begin

section \<open>Data model (models.py)\<close>

text \<open>
  Python integers are unbounded, so every matrix entry is an \<open>int\<close>.  Process indices come
  from \<open>range(n)\<close> and are natural numbers.  An exception of the source is a value of
  type \<open>error\<close>; the \<open>ValueError\<close>s are told apart by the check that raised them
  (\<open>NotInList\<close> is the one of \<open>list.index\<close>).
\<close>

datatype validation_kind =
  DimensionMismatch | NegativeValue | ConservationViolation | RequestExceedsTotal
  | NegativeId | NegativeInstances | NotInList

datatype error = ValueError validation_kind | IndexError | KeyError

record Process =
  pid :: int
  name :: string

record ResourceType =
  rid :: int
  rname :: string
  instances :: int

record SystemState =
  processes :: "Process list"
  resource_types :: "ResourceType list"
  available :: "int list"
  allocation :: "int list list"
  request :: "int list list"

definition mk_Process :: "int \<Rightarrow> string \<Rightarrow> error + Process" where
  "mk_Process i nm =
     (if i < 0 then Inl (ValueError NegativeId) else Inr \<lparr>pid = i, name = nm\<rparr>)"

definition mk_ResourceType :: "int \<Rightarrow> string \<Rightarrow> int \<Rightarrow> error + ResourceType" where
  "mk_ResourceType i nm k =
     (if i < 0 then Inl (ValueError NegativeId)
      else if k < 0 then Inl (ValueError NegativeInstances)
      else Inr \<lparr>rid = i, rname = nm, instances = k\<rparr>)"

definition n_of :: "SystemState \<Rightarrow> nat" where
  "n_of st = length (processes st)"

definition m_of :: "SystemState \<Rightarrow> nat" where
  "m_of st = length (resource_types st)"

text \<open>
  \<open>SystemState.__post_init__\<close>: the checks in the order of the source.  Each loop of the
  source raises at the first offending element, so it raises exactly when an offending
  element exists.  The indexed loops run only after the dimension checks have passed,
  hence every index they use is in range.
\<close>

definition post_init :: "SystemState \<Rightarrow> error option" where
  "post_init st =
     (let n = length (processes st); m = length (resource_types st) in
      if length (available st) \<noteq> m then Some (ValueError DimensionMismatch)
      else if length (allocation st) \<noteq> n then Some (ValueError DimensionMismatch)
      else if length (request st) \<noteq> n then Some (ValueError DimensionMismatch)
      else if list_ex (\<lambda>row. length row \<noteq> m) (allocation st)
        then Some (ValueError DimensionMismatch)
      else if list_ex (\<lambda>row. length row \<noteq> m) (request st)
        then Some (ValueError DimensionMismatch)
      else if list_ex (\<lambda>v. v < 0) (available st) then Some (ValueError NegativeValue)
      else if list_ex (\<lambda>i. list_ex (\<lambda>j. allocation st ! i ! j < 0 \<or> request st ! i ! j < 0)
                 [0..<m]) [0..<n]
        then Some (ValueError NegativeValue)
      else if list_ex (\<lambda>j. available st ! j + sum_list (map (\<lambda>i. allocation st ! i ! j) [0..<n])
                   \<noteq> instances (resource_types st ! j)) [0..<m]
        then Some (ValueError ConservationViolation)
      else if list_ex (\<lambda>i. list_ex (\<lambda>j. request st ! i ! j > instances (resource_types st ! j))
                 [0..<m]) [0..<n]
        then Some (ValueError RequestExceedsTotal)
      else None)"

definition mk_SystemState ::
  "Process list \<Rightarrow> ResourceType list \<Rightarrow> int list \<Rightarrow> int list list \<Rightarrow> int list list
   \<Rightarrow> error + SystemState" where
  "mk_SystemState ps rts av al rq =
     (let st = \<lparr>processes = ps, resource_types = rts, available = av,
                allocation = al, request = rq\<rparr>
      in case post_init st of Some e \<Rightarrow> Inl e | None \<Rightarrow> Inr st)"

definition valid :: "SystemState \<Rightarrow> bool" where
  "valid st = (post_init st = None)"

definition is_single_instance :: "SystemState \<Rightarrow> bool" where
  "is_single_instance st = list_all (\<lambda>rt. instances rt = 1) (resource_types st)"

subsection \<open>The four invariants, in the words of the specification\<close>

definition inv_dimensions :: "SystemState \<Rightarrow> bool" where
  "inv_dimensions st =
     (length (available st) = m_of st \<and>
      length (allocation st) = n_of st \<and> length (request st) = n_of st \<and>
      list_all (\<lambda>row. length row = m_of st) (allocation st) \<and>
      list_all (\<lambda>row. length row = m_of st) (request st))"

definition inv_nonnegative :: "SystemState \<Rightarrow> bool" where
  "inv_nonnegative st =
     (list_all (\<lambda>v. 0 \<le> v) (available st) \<and>
      list_all (list_all (\<lambda>v. 0 \<le> v)) (allocation st) \<and>
      list_all (list_all (\<lambda>v. 0 \<le> v)) (request st))"

definition inv_conservation :: "SystemState \<Rightarrow> bool" where
  "inv_conservation st =
     list_all (\<lambda>j. available st ! j + sum_list (map (\<lambda>row. row ! j) (allocation st))
                  = instances (resource_types st ! j)) [0..<m_of st]"

definition inv_bounded :: "SystemState \<Rightarrow> bool" where
  "inv_bounded st =
     list_all (\<lambda>i. list_all (\<lambda>j. request st ! i ! j \<le> instances (resource_types st ! j))
                 [0..<m_of st]) [0..<n_of st]"

definition invariants :: "SystemState \<Rightarrow> bool" where
  "invariants st =
     (inv_dimensions st \<and> inv_nonnegative st \<and> inv_conservation st \<and> inv_bounded st)"

section \<open>Python library functions used by the detectors\<close>

definition py_nth :: "'a list \<Rightarrow> nat \<Rightarrow> error + 'a" where
  "py_nth xs i = (if i < length xs then Inr (xs ! i) else Inl IndexError)"

definition digit_char :: "nat \<Rightarrow> char" where
  "digit_char d = char_of (48 + d)"

fun str_nat :: "nat \<Rightarrow> string" where
  "str_nat n = (if n < 10 then [digit_char n] else str_nat (n div 10) @ [digit_char (n mod 10)])"

declare str_nat.simps [simp del]

definition str_int :: "int \<Rightarrow> string" where
  "str_int i = (if i < 0 then CHR ''-'' # str_nat (nat (- i)) else str_nat (nat i))"

fun join :: "string \<Rightarrow> string list \<Rightarrow> string" where
  "join sep [] = []"
| "join sep [x] = x"
| "join sep (x # y # ys) = x @ sep @ join sep (y # ys)"

text \<open>The two non-ASCII characters of the trace messages, as their UTF-8 bytes.\<close>

definition le_sign :: string where
  "le_sign = [CHR 0xE2, CHR 0x89, CHR 0xA4]"

definition arrow :: string where
  "arrow = [CHR 0xE2, CHR 0x86, CHR 0x92]"

definition pname :: "nat \<Rightarrow> string" where
  "pname i = ''P'' @ str_nat i"

section \<open>Matrix detector (detectors/matrix.py)\<close>

definition vector_less_equal :: "int list \<Rightarrow> int list \<Rightarrow> bool" where
  "vector_less_equal req work = list_all (\<lambda>(r, w). r \<le> w) (zip req work)"

definition vector_add :: "int list \<Rightarrow> int list \<Rightarrow> int list" where
  "vector_add a b = map (\<lambda>(x, y). x + y) (zip a b)"

definition vector_to_string :: "int list \<Rightarrow> string" where
  "vector_to_string vec = ''['' @ join '', '' (map str_int vec) @ '']''"

record MatrixDetectionResult =
  deadlocked :: bool
  deadlocked_processes :: "nat set"
  finish :: "bool list"
  execution_order :: "nat list"
  trace :: "string list"

text \<open>
  The local variables of \<open>detect_deadlock_matrix\<close> that its loop changes; the prefix
  \<open>l_\<close> keeps them apart from the fields of the result.
\<close>

record loop_state =
  l_work :: "int list"
  l_finish :: "bool list"
  l_execution_order :: "nat list"
  l_trace :: "string list"
  l_iteration :: nat

text \<open>The lines \<open>P<i>: <row i>\<close> of the initial trace; a missing row raises.\<close>

fun row_lines :: "int list list \<Rightarrow> nat list \<Rightarrow> error + string list" where
  "row_lines mat [] = Inr []"
| "row_lines mat (i # is) =
     (case py_nth mat i of Inl e \<Rightarrow> Inl e
      | Inr row \<Rightarrow>
         (case row_lines mat is of Inl e \<Rightarrow> Inl e
          | Inr ls \<Rightarrow> Inr ((''    '' @ pname i @ '': '' @ vector_to_string row) # ls)))"

text \<open>The body of the \<open>if\<close> inside the scan: process \<open>i\<close> is marked and releases its row.\<close>

definition admit :: "nat \<Rightarrow> int list \<Rightarrow> int list \<Rightarrow> loop_state \<Rightarrow> loop_state" where
  "admit i req alloc s =
     (let old_work = l_work s; new_work = vector_add (l_work s) alloc in
      \<lparr>l_work = new_work,
       l_finish = (l_finish s)[i := True],
       l_execution_order = l_execution_order s @ [i],
       l_trace = l_trace s @
         [''  Iteration '' @ str_nat (l_iteration s) @ '':'',
          ''    Found '' @ pname i @ '': Request['' @ str_nat i @ ''] = '' @ vector_to_string req
             @ '' '' @ le_sign @ '' Work = '' @ vector_to_string old_work,
          ''    '' @ pname i @ '' finishes and releases Allocation['' @ str_nat i @ ''] = ''
             @ vector_to_string alloc,
          ''    Work = '' @ vector_to_string old_work @ '' + '' @ vector_to_string alloc
             @ '' = '' @ vector_to_string new_work,
          ''    Finish['' @ str_nat i @ ''] = True'',
          []],
       l_iteration = l_iteration s + 1\<rparr>)"

text \<open>
  One pass of \<open>for i in range(n)\<close>: the indices still to be looked at are the list
  argument.  The result carries the flag \<open>found\<close>.  \<open>not finish[i] and ...\<close> does not
  read \<open>request[i]\<close> when \<open>finish[i]\<close> holds.
\<close>

fun scan :: "SystemState \<Rightarrow> nat list \<Rightarrow> loop_state \<Rightarrow> error + (bool \<times> loop_state)" where
  "scan st [] s = Inr (False, s)"
| "scan st (i # is) s =
     (case py_nth (l_finish s) i of Inl e \<Rightarrow> Inl e
      | Inr f \<Rightarrow>
         if f then scan st is s
         else (case py_nth (request st) i of Inl e \<Rightarrow> Inl e
               | Inr req \<Rightarrow>
                  if vector_less_equal req (l_work s)
                  then (case py_nth (allocation st) i of Inl e \<Rightarrow> Inl e
                        | Inr alloc \<Rightarrow> Inr (True, admit i req alloc s))
                  else scan st is s))"

definition unfinished :: "loop_state \<Rightarrow> nat" where
  "unfinished s = length (filter Not (l_finish s))"

lemma filter_Not_update:
  "i < length xs \<Longrightarrow> \<not> xs ! i \<Longrightarrow>
     length (filter Not (xs[i := True])) < length (filter Not xs)"
proof (induction xs arbitrary: i)
  case Nil
  then show ?case by simp
next
  case (Cons x xs)
  then show ?case by (cases i) auto
qed

lemma scan_found_decreases:
  "scan st is s = Inr (True, s') \<Longrightarrow> unfinished s' < unfinished s"
proof (induction "is")
  case Nil
  then show ?case by simp
next
  case (Cons i "is")
  then show ?case
    by (auto simp: py_nth_def admit_def unfinished_def Let_def filter_Not_update
        split: if_splits sum.splits)
qed

text \<open>\<open>while True\<close>: a pass that finds no process ends the loop.\<close>

function matrix_loop :: "SystemState \<Rightarrow> loop_state \<Rightarrow> error + loop_state" where
  "matrix_loop st s =
     (case scan st [0..<n_of st] s of Inl e \<Rightarrow> Inl e
      | Inr (found, s') \<Rightarrow> if found then matrix_loop st s' else Inr s')"
  by pat_completeness auto
termination
  by (relation "measure (\<lambda>(st, s). unfinished s)") (auto simp: scan_found_decreases)

declare matrix_loop.simps [simp del]

text \<open>The trace lines of step 5 for the processes that cannot finish.\<close>

fun stuck_lines :: "SystemState \<Rightarrow> int list \<Rightarrow> nat list \<Rightarrow> error + string list" where
  "stuck_lines st work [] = Inr []"
| "stuck_lines st work (i # is) =
     (case py_nth (request st) i of Inl e \<Rightarrow> Inl e
      | Inr req \<Rightarrow>
         (case stuck_lines st work is of Inl e \<Rightarrow> Inl e
          | Inr ls \<Rightarrow>
             Inr ((''    '' @ pname i @ '': Request = '' @ vector_to_string req @ '', Work = ''
                     @ vector_to_string work)
                  # (''          Request['' @ str_nat i @ ''] > Work (cannot be satisfied)'')
                  # ls)))"

text \<open>The trace before the loop starts, given the lines of the two matrices.\<close>

definition initial_trace :: "SystemState \<Rightarrow> string list \<Rightarrow> string list \<Rightarrow> string list" where
  "initial_trace st alloc_lines req_lines =
     [''=== Matrix-Based Deadlock Detection ==='',
      ''System: '' @ str_nat (n_of st) @ '' processes, '' @ str_nat (m_of st)
         @ '' resource types'',
      [],
      ''Initial State:'',
      ''  Available: '' @ vector_to_string (available st),
      [],
      ''  Allocation Matrix:''] @ alloc_lines @
     [[], ''  Request Matrix:''] @ req_lines @
     [[], ''Step 1: Initialize'',
      ''  Work = Available = '' @ vector_to_string (available st),
      ''  Finish = [False, False, ..., False] (all '' @ str_nat (n_of st) @ '' processes)'',
      [],
      ''Step 2-4: Find processes that can complete'']"

text \<open>Step 1: \<open>work = available[:]\<close>, \<open>finish = [False] * n\<close>, \<open>iteration = 1\<close>.\<close>

definition initial_state :: "SystemState \<Rightarrow> string list \<Rightarrow> loop_state" where
  "initial_state st tr =
     \<lparr>l_work = available st, l_finish = replicate (n_of st) False,
      l_execution_order = [], l_trace = tr, l_iteration = 1\<rparr>"

text \<open>The trace lines of step 5, for the final state of the loop.\<close>

definition step5_lines :: "SystemState \<Rightarrow> loop_state \<Rightarrow> nat set \<Rightarrow> error + string list" where
  "step5_lines st s deadlocked_pids =
     (if deadlocked_pids \<noteq> {}
      then (case stuck_lines st (l_work s) (sorted_list_of_set deadlocked_pids) of
              Inl e \<Rightarrow> Inl e
            | Inr ls \<Rightarrow>
               Inr ([''Step 5: Check for Deadlock'',
                     ''  Processes that cannot finish (Finish[i] = False):''] @ ls @
                    [[], ''Result: DEADLOCK DETECTED'',
                     ''  Deadlocked processes: {''
                       @ join '', '' (map pname (sorted_list_of_set deadlocked_pids))
                       @ ''}'']))
      else Inr ([''Step 5: Check for Deadlock'',
                 ''  All processes finished successfully (Finish[i] = True for all i)'',
                 [], ''Result: NO DEADLOCK''] @
                (if l_execution_order s \<noteq> []
                 then [''  Safe execution sequence: ''
                         @ join ('' '' @ arrow @ '' '') (map pname (l_execution_order s))]
                 else [])))"

definition detect_deadlock_matrix :: "SystemState \<Rightarrow> error + MatrixDetectionResult" where
  "detect_deadlock_matrix st =
     (case row_lines (allocation st) [0..<n_of st] of
        Inl e \<Rightarrow> Inl e
      | Inr alloc_lines \<Rightarrow>
         (case row_lines (request st) [0..<n_of st] of
            Inl e \<Rightarrow> Inl e
          | Inr req_lines \<Rightarrow>
             (case matrix_loop st (initial_state st (initial_trace st alloc_lines req_lines)) of
                Inl e \<Rightarrow> Inl e
              | Inr s \<Rightarrow>
                 (let deadlocked_pids = set (filter (\<lambda>i. \<not> l_finish s ! i) [0..<n_of st]) in
                  case step5_lines st s deadlocked_pids of
                    Inl e \<Rightarrow> Inl e
                  | Inr final_lines \<Rightarrow>
                     Inr \<lparr>deadlocked = (card deadlocked_pids > 0),
                          deadlocked_processes = deadlocked_pids,
                          finish = l_finish s,
                          execution_order = l_execution_order s,
                          trace = l_trace s @ final_lines\<rparr>))))"

subsection \<open>can_system_recover\<close>

text \<open>
  \<open>for pid in terminated_pids: new_available = vector_add(new_available, allocation[pid])\<close>.
  The loop runs over a Python set; the ids are taken in ascending order here.
\<close>

fun release_all :: "int list list \<Rightarrow> nat list \<Rightarrow> int list \<Rightarrow> error + int list" where
  "release_all alloc [] av = Inr av"
| "release_all alloc (p # ps) av =
     (case py_nth alloc p of Inl e \<Rightarrow> Inl e
      | Inr row \<Rightarrow> release_all alloc ps (vector_add av row))"

text \<open>The comprehension \<open>[xs[i] for i in ids]\<close>.\<close>

fun select_rows :: "'a list \<Rightarrow> nat list \<Rightarrow> error + 'a list" where
  "select_rows xs [] = Inr []"
| "select_rows xs (i # is) =
     (case py_nth xs i of Inl e \<Rightarrow> Inl e
      | Inr x \<Rightarrow> (case select_rows xs is of Inl e \<Rightarrow> Inl e | Inr ys \<Rightarrow> Inr (x # ys)))"

definition remaining_pids :: "SystemState \<Rightarrow> nat set \<Rightarrow> nat list" where
  "remaining_pids st terminated = filter (\<lambda>i. i \<notin> terminated) [0..<n_of st]"

text \<open>The reduced system of the source: the rows of the remaining processes, validated.\<close>

definition build_reduced :: "SystemState \<Rightarrow> nat list \<Rightarrow> int list \<Rightarrow> error + SystemState" where
  "build_reduced st remaining new_available =
     (case select_rows (processes st) remaining of
        Inl e \<Rightarrow> Inl e
      | Inr new_processes \<Rightarrow>
         (case select_rows (allocation st) remaining of
            Inl e \<Rightarrow> Inl e
          | Inr new_allocation \<Rightarrow>
             (case select_rows (request st) remaining of
                Inl e \<Rightarrow> Inl e
              | Inr new_request \<Rightarrow>
                 mk_SystemState new_processes (resource_types st) new_available
                   new_allocation new_request)))"

text \<open>The part of \<open>can_system_recover\<close> after the reduced system has been built.\<close>

definition check_reduced ::
  "SystemState \<Rightarrow> nat list \<Rightarrow> string list \<Rightarrow> error + (bool \<times> string list)" where
  "check_reduced reduced_state remaining tr =
     (case detect_deadlock_matrix reduced_state of
        Inl e \<Rightarrow> Inl e
      | Inr result \<Rightarrow>
         if \<not> deadlocked result
         then (case select_rows remaining (execution_order result) of
                 Inl e \<Rightarrow> Inl e
               | Inr ids \<Rightarrow>
                  Inr (True, tr @
                    [''  Remaining processes can all finish!'',
                     ''  Execution order: '' @ join ('' '' @ arrow @ '' '') (map pname ids)]))
         else Inr (False, tr @ [''  Remaining processes still deadlocked.'']))"

definition can_system_recover :: "SystemState \<Rightarrow> nat set \<Rightarrow> error + (bool \<times> string list)" where
  "can_system_recover st terminated_pids =
     (case release_all (allocation st) (sorted_list_of_set terminated_pids) (available st) of
        Inl e \<Rightarrow> Inl e
      | Inr new_available \<Rightarrow>
         (let tr = [''Checking recovery by terminating: {''
                      @ join '', '' (map pname (sorted_list_of_set terminated_pids)) @ ''}'',
                    ''  Released resources: '' @ vector_to_string new_available];
              remaining = remaining_pids st terminated_pids
          in
          if remaining = [] then Inr (True, tr @ [''  All processes terminated.''])
          else (case build_reduced st remaining new_available of
                  Inl e \<Rightarrow> Inl e
                | Inr reduced_state \<Rightarrow> check_reduced reduced_state remaining tr)))"

section \<open>Recovery advisor (strategies/recovery.py)\<close>

record RecoverySuggestion =
  action_type :: string
  description :: string
  s_processes :: "nat set"
  resources :: "nat set option"
  explanation :: string

text \<open>
  \<open>itertools.combinations(ids, k)\<close>: the \<open>k\<close>-element subsequences of \<open>ids\<close> in
  lexicographic order of their positions.
\<close>

fun combinations :: "'a list \<Rightarrow> nat \<Rightarrow> 'a list list" where
  "combinations xs 0 = [[]]"
| "combinations [] (Suc k) = []"
| "combinations (x # xs) (Suc k) = map ((#) x) (combinations xs k) @ combinations xs (Suc k)"

definition newline :: string where
  "newline = [CHR 0x0A]"

definition terminate_suggestion :: "nat set \<Rightarrow> string list \<Rightarrow> RecoverySuggestion" where
  "terminate_suggestion terminated tr =
     (let process_names = join '', '' (map pname (sorted_list_of_set terminated)) in
      \<lparr>action_type = ''terminate'',
       description = ''Terminate '' @ str_nat (card terminated) @ '' process(es): ''
                       @ process_names,
       s_processes = terminated,
       resources = None,
       explanation = ''Terminating '' @ process_names
                       @ '' releases their allocated resources.'' @ newline
                       @ ''After termination:'' @ newline @ join newline tr\<rparr>)"

text \<open>The inner loop over the subsets of one size; \<open>suggestions\<close> is the list being filled.\<close>

fun try_subsets ::
  "SystemState \<Rightarrow> nat list list \<Rightarrow> RecoverySuggestion list \<Rightarrow> error + RecoverySuggestion list"
  where
  "try_subsets st [] suggestions = Inr suggestions"
| "try_subsets st (sub # rest) suggestions =
     (case can_system_recover st (set sub) of Inl e \<Rightarrow> Inl e
      | Inr (can_recover, tr) \<Rightarrow>
          if can_recover
          then try_subsets st rest (suggestions @ [terminate_suggestion (set sub) tr])
          else try_subsets st rest suggestions)"

text \<open>The outer loop over \<open>range(1, len(deadlocked_pids) + 1)\<close>.\<close>

fun search_sizes ::
  "SystemState \<Rightarrow> nat list \<Rightarrow> nat list \<Rightarrow> RecoverySuggestion list
   \<Rightarrow> error + RecoverySuggestion list" where
  "search_sizes st ids [] suggestions = Inr suggestions"
| "search_sizes st ids (k # sizes) suggestions =
     (case try_subsets st (combinations ids k) suggestions of Inl e \<Rightarrow> Inl e
      | Inr suggestions' \<Rightarrow>
          if suggestions' \<noteq> [] then Inr suggestions'
          else search_sizes st ids sizes suggestions')"

definition find_minimal_termination_set ::
  "SystemState \<Rightarrow> nat set \<Rightarrow> error + RecoverySuggestion list" where
  "find_minimal_termination_set st deadlocked_pids =
     (if deadlocked_pids = {} then Inr []
      else search_sizes st (sorted_list_of_set deadlocked_pids)
             [1..<card deadlocked_pids + 1] [])"

text \<open>\<open>held_resources\<close> of one process: the pairs \<open>(j, allocation[pid][j])\<close> with a positive count.\<close>

fun held_resources :: "int list list \<Rightarrow> nat \<Rightarrow> nat list \<Rightarrow> error + (nat \<times> int) list" where
  "held_resources alloc p [] = Inr []"
| "held_resources alloc p (j # js) =
     (case py_nth alloc p of
        Inl e \<Rightarrow> Inl e
      | Inr row \<Rightarrow>
         (case py_nth row j of
            Inl e \<Rightarrow> Inl e
          | Inr c \<Rightarrow>
             (case held_resources alloc p js of
                Inl e \<Rightarrow> Inl e
              | Inr hs \<Rightarrow> Inr (if c > 0 then (j, c) # hs else hs))))"

definition times_sign :: string where
  "times_sign = [CHR 0xC3, CHR 0x97]"

definition preempt_suggestion :: "nat \<Rightarrow> (nat \<times> int) list \<Rightarrow> RecoverySuggestion" where
  "preempt_suggestion p held =
     (let resource_desc =
            join '', '' (map (\<lambda>(r, count). str_int count @ times_sign @ ''R'' @ str_nat r) held)
      in
      \<lparr>action_type = ''preempt'',
       description = ''Preempt resources from '' @ pname p @ '': '' @ resource_desc,
       s_processes = {p},
       resources = Some (set (map fst held)),
       explanation = ''Preempt resources from '' @ pname p @ '': '' @ resource_desc @ newline
          @ ''These resources can be reallocated to other waiting processes.'' @ newline
          @ ''Note: '' @ pname p @ '' would need to be rolled back and restarted later.''\<rparr>)"

fun preempt_loop :: "SystemState \<Rightarrow> nat list \<Rightarrow> error + RecoverySuggestion list" where
  "preempt_loop st [] = Inr []"
| "preempt_loop st (p # ps) =
     (case held_resources (allocation st) p [0..<m_of st] of
        Inl e \<Rightarrow> Inl e
      | Inr held \<Rightarrow>
         (case preempt_loop st ps of
            Inl e \<Rightarrow> Inl e
          | Inr rest \<Rightarrow> Inr (if held \<noteq> [] then preempt_suggestion p held # rest else rest)))"

definition suggest_preemption_targets ::
  "SystemState \<Rightarrow> nat set \<Rightarrow> error + RecoverySuggestion list" where
  "suggest_preemption_targets st deadlocked_pids =
     preempt_loop st (sorted_list_of_set deadlocked_pids)"

section \<open>Notions used to state the properties of the matrix detector\<close>

text \<open>
  \<open>eligible\<close> is the test of the scan, \<open>work_after\<close> the vector \<open>work\<close> after the
  processes of a list have released their rows, \<open>loop_inv\<close> what holds of the local
  variables at every pass of the loop, and \<open>matrix_final\<close> relates the result to the
  state in which the loop ended.
\<close>

definition eligible :: "SystemState \<Rightarrow> loop_state \<Rightarrow> nat \<Rightarrow> bool" where
  "eligible st s i = (\<not> l_finish s ! i \<and> vector_less_equal (request st ! i) (l_work s))"

definition work_after :: "SystemState \<Rightarrow> nat list \<Rightarrow> int list" where
  "work_after st is = fold (\<lambda>i w. vector_add w (allocation st ! i)) is (available st)"

definition loop_inv :: "SystemState \<Rightarrow> loop_state \<Rightarrow> bool" where
  "loop_inv st s =
     (length (l_finish s) = n_of st \<and> distinct (l_execution_order s) \<and>
      set (l_execution_order s) = {i. i < n_of st \<and> l_finish s ! i} \<and>
      l_work s = work_after st (l_execution_order s) \<and>
      (\<forall>k<length (l_execution_order s).
         vector_less_equal (request st ! (l_execution_order s ! k))
           (work_after st (take k (l_execution_order s)))))"

definition matrix_final :: "SystemState \<Rightarrow> loop_state \<Rightarrow> MatrixDetectionResult \<Rightarrow> bool" where
  "matrix_final st s r =
     (loop_inv st s \<and> (\<forall>i<n_of st. \<not> eligible st s i) \<and>
      finish r = l_finish s \<and> execution_order r = l_execution_order s \<and>
      deadlocked_processes r = {i. i < n_of st \<and> \<not> l_finish s ! i} \<and>
      deadlocked r = (deadlocked_processes r \<noteq> {}))"

text \<open>Scenario A of the specification: three processes in a cycle of single resources.\<close>

definition scenario_A :: SystemState where
  "scenario_A =
     \<lparr>processes = [\<lparr>pid = 0, name = ''P0''\<rparr>, \<lparr>pid = 1, name = ''P1''\<rparr>,
                   \<lparr>pid = 2, name = ''P2''\<rparr>],
      resource_types = [\<lparr>rid = 0, rname = ''R0'', instances = 1\<rparr>,
                        \<lparr>rid = 1, rname = ''R1'', instances = 1\<rparr>,
                        \<lparr>rid = 2, rname = ''R2'', instances = 1\<rparr>],
      available = [0, 0, 0],
      allocation = [[1, 0, 0], [0, 1, 0], [0, 0, 1]],
      request = [[0, 1, 0], [0, 0, 1], [1, 0, 0]]\<rparr>"

definition reduced_record :: "SystemState \<Rightarrow> nat list \<Rightarrow> int list \<Rightarrow> SystemState" where
  "reduced_record st remaining new_available =
     \<lparr>processes = map ((!) (processes st)) remaining,
      resource_types = resource_types st,
      available = new_available,
      allocation = map ((!) (allocation st)) remaining,
      request = map ((!) (request st)) remaining\<rparr>"


text \<open>
  The state of the test \<open>test_partial_deadlock_with_safe_process\<close>: processes 0 and 1
  wait for each other, process 2 can finish.
\<close>

definition partial_deadlock :: SystemState where
  "partial_deadlock =
     \<lparr>processes = [\<lparr>pid = 0, name = ''P0''\<rparr>, \<lparr>pid = 1, name = ''P1''\<rparr>,
                   \<lparr>pid = 2, name = ''P2''\<rparr>],
      resource_types = [\<lparr>rid = 0, rname = ''R0'', instances = 1\<rparr>,
                        \<lparr>rid = 1, rname = ''R1'', instances = 1\<rparr>,
                        \<lparr>rid = 2, rname = ''R2'', instances = 1\<rparr>],
      available = [0, 0, 1],
      allocation = [[1, 0, 0], [0, 1, 0], [0, 0, 0]],
      request = [[0, 1, 0], [1, 0, 0], [0, 0, 1]]\<rparr>"

text \<open>The first two trace lines of \<open>can_system_recover\<close>.\<close>

definition recovery_header :: "nat set \<Rightarrow> int list \<Rightarrow> string list" where
  "recovery_header terminated_pids new_available =
     [''Checking recovery by terminating: {''
        @ join '', '' (map pname (sorted_list_of_set terminated_pids)) @ ''}'',
      ''  Released resources: '' @ vector_to_string new_available]"

text \<open>
  Two processes and two resource types of two instances each: every process holds one
  instance of one type and requests one of the other, and one instance of each is free.
\<close>

definition multi_instance_cycle :: SystemState where
  "multi_instance_cycle =
     \<lparr>processes = [\<lparr>pid = 0, name = ''P0''\<rparr>, \<lparr>pid = 1, name = ''P1''\<rparr>],
      resource_types = [\<lparr>rid = 0, rname = ''R0'', instances = 2\<rparr>,
                        \<lparr>rid = 1, rname = ''R1'', instances = 2\<rparr>],
      available = [1, 1],
      allocation = [[1, 0], [0, 1]],
      request = [[0, 1], [1, 0]]\<rparr>"

text \<open>
  Four processes on four single-instance resources: processes 0 and 1 wait for each
  other, and so do processes 2 and 3.
\<close>

definition two_cycles :: SystemState where
  "two_cycles =
     \<lparr>processes = [\<lparr>pid = 0, name = ''P0''\<rparr>, \<lparr>pid = 1, name = ''P1''\<rparr>,
                   \<lparr>pid = 2, name = ''P2''\<rparr>, \<lparr>pid = 3, name = ''P3''\<rparr>],
      resource_types = [\<lparr>rid = 0, rname = ''R0'', instances = 1\<rparr>,
                        \<lparr>rid = 1, rname = ''R1'', instances = 1\<rparr>,
                        \<lparr>rid = 2, rname = ''R2'', instances = 1\<rparr>,
                        \<lparr>rid = 3, rname = ''R3'', instances = 1\<rparr>],
      available = [0, 0, 0, 0],
      allocation = [[1, 0, 0, 0], [0, 1, 0, 0], [0, 0, 1, 0], [0, 0, 0, 1]],
      request = [[0, 1, 0, 0], [1, 0, 0, 0], [0, 0, 0, 1], [0, 0, 1, 0]]\<rparr>"

text \<open>The Boolean and the trace that \<open>can_system_recover\<close> returns.\<close>

definition recovers :: "SystemState \<Rightarrow> nat set \<Rightarrow> bool" where
  "recovers st T = (case can_system_recover st T of Inl e \<Rightarrow> False | Inr (b, tr) \<Rightarrow> b)"

definition recovery_trace :: "SystemState \<Rightarrow> nat set \<Rightarrow> string list" where
  "recovery_trace st T = (case can_system_recover st T of Inl e \<Rightarrow> [] | Inr (b, tr) \<Rightarrow> tr)"

text \<open>The combinations of \<open>k\<close> of the ids whose termination recovers the system.\<close>

definition recovering_subsets :: "SystemState \<Rightarrow> nat list \<Rightarrow> nat \<Rightarrow> nat list list" where
  "recovering_subsets st ids k = filter (\<lambda>c. recovers st (set c)) (combinations ids k)"

section \<open>Validation\<close>

lemma list_all_nth_iff: "list_all P xs = (\<forall>i<length xs. P (xs ! i))"
  by (simp add: list_all_length)

lemma list_all_upt_iff: "list_all P [0..<n] = (\<forall>i<n. P i)"
  by (auto simp: list_all_iff)

lemma list_ex_upt_iff: "list_ex P [0..<n] = (\<exists>i<n. P i)"
  by (auto simp: list_ex_iff)

lemma column_sum_rows:
  "length al = n \<Longrightarrow> sum_list (map (\<lambda>i. al ! i ! j) [0..<n]) = sum_list (map (\<lambda>row. row ! j) al)"
proof -
  assume "length al = n"
  then have "map (\<lambda>i. al ! i ! j) [0..<n] = map (\<lambda>row. row ! j) (map ((!) al) [0..<length al])"
    by simp
  then show ?thesis by (simp only: map_nth)
qed

lemma valid_iff_invariants: "valid st = invariants st"
proof (cases "inv_dimensions st")
  case False
  then show ?thesis
    by (auto simp: valid_def post_init_def invariants_def inv_dimensions_def Let_def
        n_of_def m_of_def list_all_iff list_ex_iff)
next
  case True
  then have dims: "length (available st) = m_of st" "length (allocation st) = n_of st"
    "length (request st) = n_of st"
    "\<forall>i<n_of st. length (allocation st ! i) = m_of st"
    "\<forall>i<n_of st. length (request st ! i) = m_of st"
    by (auto simp: inv_dimensions_def list_all_nth_iff)
  have nn: "inv_nonnegative st =
      (\<not> list_ex (\<lambda>v. v < 0) (available st) \<and>
       \<not> list_ex (\<lambda>i. list_ex (\<lambda>j. allocation st ! i ! j < 0 \<or> request st ! i ! j < 0)
                 [0..<m_of st]) [0..<n_of st])"
  proof -
    have a: "list_all (\<lambda>v. 0 \<le> v) (available st) = (\<not> list_ex (\<lambda>v. v < 0) (available st))"
      by (auto simp: list_all_iff list_ex_iff not_less)
    have b: "(list_all (list_all (\<lambda>v. 0 \<le> v)) (allocation st) \<and>
              list_all (list_all (\<lambda>v. 0 \<le> v)) (request st)) =
             (\<forall>i<n_of st. \<forall>j<m_of st. 0 \<le> allocation st ! i ! j \<and> 0 \<le> request st ! i ! j)"
      using dims by (simp add: list_all_nth_iff) blast
    have c: "(\<not> list_ex (\<lambda>i. list_ex (\<lambda>j. allocation st ! i ! j < 0 \<or> request st ! i ! j < 0)
                 [0..<m_of st]) [0..<n_of st]) =
             (\<forall>i<n_of st. \<forall>j<m_of st. 0 \<le> allocation st ! i ! j \<and> 0 \<le> request st ! i ! j)"
      unfolding list_ex_upt_iff by (meson not_less)
    show ?thesis
      unfolding inv_nonnegative_def a c using b by simp
  qed
  have cons: "inv_conservation st =
      (\<not> list_ex (\<lambda>j. available st ! j
           + sum_list (map (\<lambda>i. allocation st ! i ! j) [0..<n_of st])
           \<noteq> instances (resource_types st ! j)) [0..<m_of st])"
    using dims(2) by (simp add: inv_conservation_def column_sum_rows list_all_iff list_ex_iff)
  have bd: "inv_bounded st =
      (\<not> list_ex (\<lambda>i. list_ex (\<lambda>j. request st ! i ! j > instances (resource_types st ! j))
                 [0..<m_of st]) [0..<n_of st])"
    by (auto simp: inv_bounded_def list_all_iff list_ex_iff not_less)
  have "valid st = (inv_nonnegative st \<and> inv_conservation st \<and> inv_bounded st)"
    unfolding nn cons bd using True
    by (simp add: valid_def post_init_def Let_def inv_dimensions_def n_of_def m_of_def
        list_all_iff list_ex_iff)
  with True show ?thesis by (simp add: invariants_def)
qed

text \<open>
  C6.  Constructing a system state fails (returns an error and no state) if and only if
  one of the four invariants of the specification is violated; a state that was
  constructed is the record of the five arguments and satisfies all four.
\<close>

theorem construction_fails_iff_invariant_violated:
  "((\<exists>e. mk_SystemState ps rts av al rq = Inl e) \<longleftrightarrow>
      \<not> invariants \<lparr>processes = ps, resource_types = rts, available = av,
                    allocation = al, request = rq\<rparr>) \<and>
   (\<forall>st. mk_SystemState ps rts av al rq = Inr st \<longrightarrow>
      st = \<lparr>processes = ps, resource_types = rts, available = av,
            allocation = al, request = rq\<rparr> \<and>
      inv_dimensions st \<and> inv_nonnegative st \<and> inv_conservation st \<and> inv_bounded st)"
  using valid_iff_invariants [of "\<lparr>processes = ps, resource_types = rts, available = av,
                    allocation = al, request = rq\<rparr>"]
  by (auto simp: mk_SystemState_def valid_def Let_def invariants_def split: option.splits)

theorem construction_fails_iff_invariant_violated_witness:
  "mk_SystemState [\<lparr>pid = 0, name = ''P0''\<rparr>] [\<lparr>rid = 0, rname = ''R0'', instances = 1\<rparr>]
      [0] [[1]] [[1]]
     = Inr \<lparr>processes = [\<lparr>pid = 0, name = ''P0''\<rparr>],
            resource_types = [\<lparr>rid = 0, rname = ''R0'', instances = 1\<rparr>],
            available = [0], allocation = [[1]], request = [[1]]\<rparr> \<and>
   inv_conservation \<lparr>processes = [\<lparr>pid = 0, name = ''P0''\<rparr>],
            resource_types = [\<lparr>rid = 0, rname = ''R0'', instances = 1\<rparr>],
            available = [0], allocation = [[1]], request = [[1]]\<rparr> \<and>
   (\<exists>e. mk_SystemState [\<lparr>pid = 0, name = ''P0''\<rparr>] [\<lparr>rid = 0, rname = ''R0'', instances = 1\<rparr>]
      [1] [[1]] [[1]] = Inl e) \<and>
   \<not> invariants \<lparr>processes = [\<lparr>pid = 0, name = ''P0''\<rparr>],
            resource_types = [\<lparr>rid = 0, rname = ''R0'', instances = 1\<rparr>],
            available = [1], allocation = [[1]], request = [[1]]\<rparr>"
proof -
  have ok: "mk_SystemState [\<lparr>pid = 0, name = ''P0''\<rparr>] [\<lparr>rid = 0, rname = ''R0'', instances = 1\<rparr>]
      [0] [[1]] [[1]]
     = Inr \<lparr>processes = [\<lparr>pid = 0, name = ''P0''\<rparr>],
            resource_types = [\<lparr>rid = 0, rname = ''R0'', instances = 1\<rparr>],
            available = [0], allocation = [[1]], request = [[1]]\<rparr>"
    by (simp add: mk_SystemState_def post_init_def)
  have bad: "\<exists>e. mk_SystemState [\<lparr>pid = 0, name = ''P0''\<rparr>]
      [\<lparr>rid = 0, rname = ''R0'', instances = 1\<rparr>] [1] [[1]] [[1]] = Inl e"
    by (simp add: mk_SystemState_def post_init_def)
  show ?thesis
    using ok bad
      construction_fails_iff_invariant_violated [of "[\<lparr>pid = 0, name = ''P0''\<rparr>]"
        "[\<lparr>rid = 0, rname = ''R0'', instances = 1\<rparr>]" "[0]" "[[1]]" "[[1]]"]
      construction_fails_iff_invariant_violated [of "[\<lparr>pid = 0, name = ''P0''\<rparr>]"
        "[\<lparr>rid = 0, rname = ''R0'', instances = 1\<rparr>]" "[1]" "[[1]]" "[[1]]"]
    by blast
qed

section \<open>The matrix detector: invariants of the loop\<close>

lemma valid_scenario_A: "valid scenario_A"
  by (simp add: valid_def post_init_def scenario_A_def)

lemma valid_dims:
  assumes "valid st"
  shows "length (available st) = m_of st" "length (allocation st) = n_of st"
    "length (request st) = n_of st"
    "\<And>i. i < n_of st \<Longrightarrow> length (allocation st ! i) = m_of st"
    "\<And>i. i < n_of st \<Longrightarrow> length (request st ! i) = m_of st"
  using assms unfolding valid_iff_invariants invariants_def inv_dimensions_def
  by (auto simp: list_all_nth_iff)

lemma scan_find:
  assumes "length (l_finish s) = n_of st" "n_of st \<le> length (request st)"
    "n_of st \<le> length (allocation st)" "\<forall>i\<in>set is. i < n_of st"
  shows "scan st is s =
     (case find (eligible st s) is of None \<Rightarrow> Inr (False, s)
      | Some i \<Rightarrow> Inr (True, admit i (request st ! i) (allocation st ! i) s))"
  using assms(4)
proof (induction "is")
  case Nil
  then show ?case by simp
next
  case (Cons i "is")
  then show ?case using assms(1-3)
    by (simp add: py_nth_def eligible_def)
qed

lemma find_upt_Some:
  "find P [0..<n] = Some i \<longleftrightarrow> i < n \<and> P i \<and> (\<forall>j<i. \<not> P j)"
  by (auto simp: find_Some_iff)

lemma find_upt_None: "find P [0..<n] = None \<longleftrightarrow> (\<forall>i<n. \<not> P i)"
  by (auto simp: find_None_iff)

lemma admit_inv:
  assumes "loop_inv st s" "i < n_of st" "eligible st s i"
  shows "loop_inv st (admit i (request st ! i) (allocation st ! i) s)"
proof -
  let ?o = "l_execution_order s"
  from assms have fin: "\<not> l_finish s ! i" and le: "vector_less_equal (request st ! i) (l_work s)"
    by (auto simp: eligible_def)
  from assms(1) have len: "length (l_finish s) = n_of st" and d: "distinct ?o"
    and so: "set ?o = {i. i < n_of st \<and> l_finish s ! i}"
    and w: "l_work s = work_after st ?o"
    and tr: "\<forall>k<length ?o. vector_less_equal (request st ! (?o ! k)) (work_after st (take k ?o))"
    by (auto simp: loop_inv_def)
  have notin: "i \<notin> set ?o" using so fin by auto
  have s1: "set (?o @ [i]) = {j. j < n_of st \<and> (l_finish s)[i := True] ! j}"
    using so assms(2) len by (auto simp: nth_list_update)
  have w1: "vector_add (l_work s) (allocation st ! i) = work_after st (?o @ [i])"
    using w by (simp add: work_after_def)
  have t1: "\<forall>k<length (?o @ [i]).
         vector_less_equal (request st ! ((?o @ [i]) ! k)) (work_after st (take k (?o @ [i])))"
  proof (intro allI impI)
    fix k assume "k < length (?o @ [i])"
    then consider "k < length ?o" | "k = length ?o" by fastforce
    then show "vector_less_equal (request st ! ((?o @ [i]) ! k)) (work_after st (take k (?o @ [i])))"
    proof cases
      case 1
      then show ?thesis using tr by (simp add: nth_append)
    next
      case 2
      then show ?thesis using le w by (simp add: nth_append)
    qed
  qed
  show ?thesis
    unfolding loop_inv_def admit_def Let_def
    using len d notin s1 w1 t1 by simp
qed

lemma matrix_loop_inv:
  assumes "n_of st \<le> length (request st)" "n_of st \<le> length (allocation st)"
  shows "loop_inv st s \<Longrightarrow>
     \<exists>s'. matrix_loop st s = Inr s' \<and> loop_inv st s' \<and> (\<forall>i<n_of st. \<not> eligible st s' i)"
  using assms
proof (induction st s rule: matrix_loop.induct)
  case (1 st s)
  have len: "length (l_finish s) = n_of st" using "1.prems" by (simp add: loop_inv_def)
  have sc: "scan st [0..<n_of st] s =
     (case find (eligible st s) [0..<n_of st] of None \<Rightarrow> Inr (False, s)
      | Some i \<Rightarrow> Inr (True, admit i (request st ! i) (allocation st ! i) s))"
    using scan_find [OF len] "1.prems" by simp
  show ?case
  proof (cases "find (eligible st s) [0..<n_of st]")
    case None
    then have "matrix_loop st s = Inr s" using sc by (simp add: matrix_loop.simps [of st s])
    moreover have "\<forall>i<n_of st. \<not> eligible st s i" using None by (simp add: find_upt_None)
    ultimately show ?thesis using "1.prems" by blast
  next
    case (Some i)
    then have i: "i < n_of st" "eligible st s i" by (auto simp: find_upt_Some)
    let ?s' = "admit i (request st ! i) (allocation st ! i) s"
    have sc': "scan st [0..<n_of st] s = Inr (True, ?s')" using sc Some by simp
    have inv': "loop_inv st ?s'" using admit_inv [OF "1.prems"(1) i] .
    have "matrix_loop st s = matrix_loop st ?s'"
      using sc' by (simp add: matrix_loop.simps [of st s])
    with "1.IH" [OF sc' refl _ inv' "1.prems"(2,3)] show ?thesis by simp
  qed
qed

lemma row_lines_ok: "\<forall>i\<in>set is. i < length mat \<Longrightarrow> \<exists>ls. row_lines mat is = Inr ls"
  by (induction "is") (auto simp: py_nth_def)

lemma stuck_lines_ok:
  "\<forall>i\<in>set is. i < length (request st) \<Longrightarrow> \<exists>ls. stuck_lines st w is = Inr ls"
  by (induction "is") (auto simp: py_nth_def)

lemma init_loop_inv: "loop_inv st (initial_state st tr)"
  by (simp add: loop_inv_def work_after_def initial_state_def)

lemma step5_lines_ok:
  assumes "finite D" "\<forall>i\<in>D. i < length (request st)"
  shows "\<exists>ls. step5_lines st s D = Inr ls"
proof -
  have "\<forall>i\<in>set (sorted_list_of_set D). i < length (request st)" using assms by simp
  from stuck_lines_ok [OF this, of "l_work s"] show ?thesis
    by (auto simp: step5_lines_def)
qed

lemma detect_matrix_result:
  assumes rq: "n_of st \<le> length (request st)" and al: "n_of st \<le> length (allocation st)"
  shows "\<exists>r s. detect_deadlock_matrix st = Inr r \<and> matrix_final st s r"
proof -
  obtain al_lines where a: "row_lines (allocation st) [0..<n_of st] = Inr al_lines"
    using row_lines_ok [of "[0..<n_of st]" "allocation st"] al by auto
  obtain rq_lines where b: "row_lines (request st) [0..<n_of st] = Inr rq_lines"
    using row_lines_ok [of "[0..<n_of st]" "request st"] rq by auto
  define s0 where "s0 = initial_state st (initial_trace st al_lines rq_lines)"
  have "loop_inv st s0" unfolding s0_def by (rule init_loop_inv)
  from matrix_loop_inv [OF rq al this]
  obtain s where s: "matrix_loop st s0 = Inr s" "loop_inv st s" "\<forall>i<n_of st. \<not> eligible st s i"
    by blast
  define D where "D = set (filter (\<lambda>i. \<not> l_finish s ! i) [0..<n_of st])"
  have D: "D = {i. i < n_of st \<and> \<not> l_finish s ! i}" by (auto simp: D_def)
  have finD: "finite D" by (simp add: D_def)
  obtain fl where fl: "step5_lines st s D = Inr fl"
    using step5_lines_ok [OF finD, of st s] D rq by auto
  have cardD: "(card D > 0) = (D \<noteq> {})" using finD by (simp add: card_gt_0_iff)
  have "\<exists>r. detect_deadlock_matrix st = Inr r \<and> finish r = l_finish s \<and>
     execution_order r = l_execution_order s \<and> deadlocked_processes r = D \<and>
     deadlocked r = (D \<noteq> {})"
    unfolding detect_deadlock_matrix_def
    using a b s(1) fl cardD
    by (simp add: s0_def [symmetric] Let_def D [symmetric])
  then obtain r where r: "detect_deadlock_matrix st = Inr r" "finish r = l_finish s"
     "execution_order r = l_execution_order s" "deadlocked_processes r = D"
     "deadlocked r = (D \<noteq> {})" by blast
  have "matrix_final st s r"
    unfolding matrix_final_def using s(2,3) r(2-5) D by simp
  with r(1) show ?thesis by blast
qed

lemma valid_rows: "valid st \<Longrightarrow> n_of st \<le> length (request st) \<and> n_of st \<le> length (allocation st)"
  using valid_dims(2,3) by simp

lemma filter_less_iff: "length (filter P xs) < length xs \<longleftrightarrow> (\<exists>i<length xs. \<not> P (xs ! i))"
proof
  assume l: "length (filter P xs) < length xs"
  show "\<exists>i<length xs. \<not> P (xs ! i)"
  proof (rule ccontr)
    assume "\<not> (\<exists>i<length xs. \<not> P (xs ! i))"
    then have "filter P xs = xs" by (simp add: filter_id_conv all_set_conv_all_nth)
    with l show False by simp
  qed
next
  assume "\<exists>i<length xs. \<not> P (xs ! i)"
  then obtain i where "i < length xs" "\<not> P (xs ! i)" by blast
  then show "length (filter P xs) < length xs"
    using length_filter_less [of "xs ! i" xs P] by simp
qed

text \<open>
  C2.  On a valid state the matrix detector returns a result whose deadlocked set is
  exactly the set of indices with \<open>finish[i] = False\<close>, and \<open>deadlocked\<close> holds iff
  that set is not empty, that is, iff fewer than \<open>n\<close> entries of \<open>finish\<close> are true.
\<close>

theorem matrix_deadlocked_set_is_unfinished:
  assumes "valid st"
  shows "\<exists>r. detect_deadlock_matrix st = Inr r \<and>
           length (finish r) = n_of st \<and>
           deadlocked_processes r = {i. i < n_of st \<and> \<not> finish r ! i} \<and>
           (deadlocked r \<longleftrightarrow> deadlocked_processes r \<noteq> {}) \<and>
           (deadlocked r \<longleftrightarrow> length (filter (\<lambda>b. b) (finish r)) < n_of st)"
proof -
  from detect_matrix_result valid_rows [OF assms]
  obtain r s where r: "detect_deadlock_matrix st = Inr r" "matrix_final st s r" by blast
  then have len: "length (finish r) = n_of st"
    and D: "deadlocked_processes r = {i. i < n_of st \<and> \<not> finish r ! i}"
    and dl: "deadlocked r = (deadlocked_processes r \<noteq> {})"
    by (auto simp: matrix_final_def loop_inv_def)
  have "(deadlocked_processes r \<noteq> {}) = (length (filter (\<lambda>b. b) (finish r)) < n_of st)"
    using filter_less_iff [of "\<lambda>b. b" "finish r"] len D by auto
  with r(1) len D dl show ?thesis by simp
qed

theorem matrix_deadlocked_set_is_unfinished_witness:
  "valid scenario_A \<and>
   (\<exists>r. detect_deadlock_matrix scenario_A = Inr r \<and>
        length (finish r) = n_of scenario_A \<and>
        deadlocked_processes r = {i. i < n_of scenario_A \<and> \<not> finish r ! i} \<and>
        (deadlocked r \<longleftrightarrow> deadlocked_processes r \<noteq> {}) \<and>
        (deadlocked r \<longleftrightarrow> length (filter (\<lambda>b. b) (finish r)) < n_of scenario_A))"
proof -
  have v: "valid scenario_A" by (rule valid_scenario_A)
  from matrix_deadlocked_set_is_unfinished [OF v] v show ?thesis by blast
qed

text \<open>
  C10.  On a valid state the execution order of the matrix detector has no duplicates,
  consists of exactly the indices with \<open>finish[i] = True\<close>, and its length plus the size
  of the deadlocked set is \<open>n\<close>.
\<close>

theorem execution_order_partitions_processes:
  assumes "valid st"
  shows "\<exists>r. detect_deadlock_matrix st = Inr r \<and>
           distinct (execution_order r) \<and>
           set (execution_order r) = {i. i < n_of st \<and> finish r ! i} \<and>
           length (execution_order r) + card (deadlocked_processes r) = n_of st"
proof -
  from detect_matrix_result valid_rows [OF assms]
  obtain r s where r: "detect_deadlock_matrix st = Inr r" "matrix_final st s r" by blast
  then have d: "distinct (execution_order r)"
    and so: "set (execution_order r) = {i. i < n_of st \<and> finish r ! i}"
    and D: "deadlocked_processes r = {i. i < n_of st \<and> \<not> finish r ! i}"
    by (auto simp: matrix_final_def loop_inv_def)
  have "length (execution_order r) = card {i. i < n_of st \<and> finish r ! i}"
    using d so distinct_card by metis
  moreover have "card {i. i < n_of st \<and> finish r ! i} + card {i. i < n_of st \<and> \<not> finish r ! i}
      = card ({i. i < n_of st \<and> finish r ! i} \<union> {i. i < n_of st \<and> \<not> finish r ! i})"
    by (subst card_Un_disjoint) auto
  moreover have "{i. i < n_of st \<and> finish r ! i} \<union> {i. i < n_of st \<and> \<not> finish r ! i} = {..<n_of st}"
    by auto
  ultimately show ?thesis using r(1) d so D by simp
qed

theorem execution_order_partitions_processes_witness:
  "valid scenario_A \<and>
   (\<exists>r. detect_deadlock_matrix scenario_A = Inr r \<and>
        distinct (execution_order r) \<and>
        set (execution_order r) = {i. i < n_of scenario_A \<and> finish r ! i} \<and>
        length (execution_order r) + card (deadlocked_processes r) = n_of scenario_A)"
proof -
  have v: "valid scenario_A" by (rule valid_scenario_A)
  from execution_order_partitions_processes [OF v] v show ?thesis by blast
qed

lemma vector_less_equal_iff:
  "length a = length b \<Longrightarrow> vector_less_equal a b \<longleftrightarrow> (\<forall>j<length a. a ! j \<le> b ! j)"
  by (simp add: vector_less_equal_def list_all_length)

section \<open>The reduced system of can_system_recover\<close>

lemma valid_iff_pointwise:
  "valid st \<longleftrightarrow>
     length (available st) = m_of st \<and> length (allocation st) = n_of st \<and>
     length (request st) = n_of st \<and>
     (\<forall>i<n_of st. length (allocation st ! i) = m_of st) \<and>
     (\<forall>i<n_of st. length (request st ! i) = m_of st) \<and>
     (\<forall>j<m_of st. 0 \<le> available st ! j) \<and>
     (\<forall>i<n_of st. \<forall>j<m_of st. 0 \<le> allocation st ! i ! j \<and> 0 \<le> request st ! i ! j) \<and>
     (\<forall>j<m_of st. available st ! j + sum_list (map (\<lambda>i. allocation st ! i ! j) [0..<n_of st])
                     = instances (resource_types st ! j)) \<and>
     (\<forall>i<n_of st. \<forall>j<m_of st. request st ! i ! j \<le> instances (resource_types st ! j))"
  (is "_ \<longleftrightarrow> ?R")
proof (cases "inv_dimensions st")
  case False
  then show ?thesis
    unfolding valid_iff_invariants invariants_def
    by (auto simp: inv_dimensions_def list_all_nth_iff)
next
  case True
  then have dims: "length (available st) = m_of st" "length (allocation st) = n_of st"
    "length (request st) = n_of st"
    "\<forall>i<n_of st. length (allocation st ! i) = m_of st"
    "\<forall>i<n_of st. length (request st ! i) = m_of st"
    by (auto simp: inv_dimensions_def list_all_nth_iff)
  have nn: "inv_nonnegative st \<longleftrightarrow> (\<forall>j<m_of st. 0 \<le> available st ! j) \<and>
     (\<forall>i<n_of st. \<forall>j<m_of st. 0 \<le> allocation st ! i ! j \<and> 0 \<le> request st ! i ! j)"
    using dims by (simp add: inv_nonnegative_def list_all_nth_iff) blast
  have cons: "inv_conservation st \<longleftrightarrow>
     (\<forall>j<m_of st. available st ! j + sum_list (map (\<lambda>i. allocation st ! i ! j) [0..<n_of st])
                     = instances (resource_types st ! j))"
    using dims(2) by (simp add: inv_conservation_def list_all_upt_iff column_sum_rows)
  have bd: "inv_bounded st \<longleftrightarrow>
     (\<forall>i<n_of st. \<forall>j<m_of st. request st ! i ! j \<le> instances (resource_types st ! j))"
    by (simp add: inv_bounded_def list_all_upt_iff)
  show ?thesis
    unfolding valid_iff_invariants invariants_def nn cons bd using True dims by simp
qed

lemma vector_add_length: "length a = length b \<Longrightarrow> length (vector_add a b) = length a"
  by (simp add: vector_add_def)

lemma vector_add_nth:
  "length a = length b \<Longrightarrow> j < length a \<Longrightarrow> vector_add a b ! j = a ! j + b ! j"
  by (simp add: vector_add_def)

lemma select_rows_ok:
  "\<forall>i\<in>set is. i < length xs \<Longrightarrow> select_rows xs is = Inr (map ((!) xs) is)"
  by (induction "is") (auto simp: py_nth_def)

lemma release_all_ok:
  assumes "\<forall>p\<in>set ps. p < length alloc \<and> length (alloc ! p) = m" "length av = m"
  shows "\<exists>av'. release_all alloc ps av = Inr av' \<and> length av' = m \<and>
           (\<forall>j<m. av' ! j = av ! j + sum_list (map (\<lambda>p. alloc ! p ! j) ps))"
  using assms
proof (induction ps arbitrary: av)
  case Nil
  then show ?case by simp
next
  case (Cons p ps)
  let ?av = "vector_add av (alloc ! p)"
  have l: "length ?av = m" using Cons.prems by (simp add: vector_add_length)
  from Cons.IH [of ?av] Cons.prems l
  obtain av' where av': "release_all alloc ps ?av = Inr av'" "length av' = m"
    "\<forall>j<m. av' ! j = ?av ! j + sum_list (map (\<lambda>p. alloc ! p ! j) ps)" by auto
  have "\<forall>j<m. ?av ! j = av ! j + alloc ! p ! j"
    using Cons.prems by (simp add: vector_add_nth)
  with av' show ?case using Cons.prems by (simp add: py_nth_def)
qed

lemma sum_list_split_set:
  fixes g :: "nat \<Rightarrow> int"
  assumes "T \<subseteq> {0..<n}"
  shows "sum_list (map g (sorted_list_of_set T)) + sum_list (map g (filter (\<lambda>i. i \<notin> T) [0..<n]))
           = sum_list (map g [0..<n])"
proof -
  have fin: "finite T" using assms finite_subset by blast
  have a: "sum_list (map g (sorted_list_of_set T)) = sum g T"
    using fin by (simp add: sum_list_distinct_conv_sum_set)
  have b: "sum_list (map g (filter (\<lambda>i. i \<notin> T) [0..<n])) = sum g ({0..<n} - T)"
  proof -
    have "set (filter (\<lambda>i. i \<notin> T) [0..<n]) = {0..<n} - T" by auto
    then show ?thesis by (simp add: sum_list_distinct_conv_sum_set)
  qed
  have c: "sum_list (map g [0..<n]) = sum g {0..<n}"
    by (simp add: sum_list_distinct_conv_sum_set)
  have "sum g T + sum g ({0..<n} - T) = sum g {0..<n}"
    using assms by (simp add: sum.subset_diff [of T "{0..<n}" g] add.commute)
  with a b c show ?thesis by simp
qed

lemma map_nth_map: "map (\<lambda>i. f (map h xs ! i)) [0..<length xs] = map (\<lambda>x. f (h x)) xs"
proof -
  have "map (\<lambda>i. f (map h xs ! i)) [0..<length xs]
          = map f (map ((!) (map h xs)) [0..<length (map h xs)])"
    by simp
  also have "\<dots> = map f (map h xs)" by (simp only: map_nth)
  finally show ?thesis by simp
qed

lemma reduced_state_valid:
  assumes v: "valid st" and T: "T \<subseteq> {0..<n_of st}"
  shows "\<exists>av'. release_all (allocation st) (sorted_list_of_set T) (available st) = Inr av' \<and>
           build_reduced st (remaining_pids st T) av'
             = Inr (reduced_record st (remaining_pids st T) av') \<and>
           valid (reduced_record st (remaining_pids st T) av') \<and>
           length av' = m_of st \<and>
           (\<forall>j<m_of st. av' ! j = available st ! j
                           + sum_list (map (\<lambda>p. allocation st ! p ! j) (sorted_list_of_set T)))"
proof -
  note f = v [unfolded valid_iff_pointwise]
  let ?rem = "remaining_pids st T"
  have fin: "finite T" using T finite_subset by blast
  have rem: "\<forall>i\<in>set ?rem. i < n_of st" by (auto simp: remaining_pids_def)
  have "\<forall>p\<in>set (sorted_list_of_set T). p < length (allocation st)
           \<and> length (allocation st ! p) = m_of st"
    using fin T f by auto
  from release_all_ok [OF this, of "available st"] f
  obtain av' where av': "release_all (allocation st) (sorted_list_of_set T) (available st) = Inr av'"
    "length av' = m_of st"
    "\<forall>j<m_of st. av' ! j = available st ! j
        + sum_list (map (\<lambda>p. allocation st ! p ! j) (sorted_list_of_set T))"
    by auto
  let ?r = "reduced_record st ?rem av'"
  have nr: "n_of ?r = length ?rem" and mr: "m_of ?r = m_of st"
    by (simp_all add: reduced_record_def n_of_def m_of_def)
  have nth_rem: "\<And>i. i < length ?rem \<Longrightarrow> ?rem ! i < n_of st"
    using rem nth_mem by blast
  have cons: "\<forall>j<m_of st. av' ! j
       + sum_list (map (\<lambda>i. allocation ?r ! i ! j) [0..<length ?rem])
       = instances (resource_types st ! j)"
  proof (intro allI impI)
    fix j assume j: "j < m_of st"
    let ?g = "\<lambda>p. allocation st ! p ! j"
    have "map (\<lambda>i. allocation ?r ! i ! j) [0..<length ?rem] = map ?g ?rem"
      using map_nth_map [of "\<lambda>row. row ! j" "(!) (allocation st)" ?rem]
      by (simp add: reduced_record_def)
    then have "sum_list (map (\<lambda>i. allocation ?r ! i ! j) [0..<length ?rem])
        = sum_list (map ?g ?rem)" by simp
    moreover have "sum_list (map ?g (sorted_list_of_set T)) + sum_list (map ?g ?rem)
        = sum_list (map ?g [0..<n_of st])"
      unfolding remaining_pids_def by (rule sum_list_split_set [OF T])
    moreover have "available st ! j + sum_list (map ?g [0..<n_of st])
        = instances (resource_types st ! j)"
      using f j by simp
    moreover have "av' ! j = available st ! j + sum_list (map ?g (sorted_list_of_set T))"
      using av'(3) j by simp
    ultimately show "av' ! j + sum_list (map (\<lambda>i. allocation ?r ! i ! j) [0..<length ?rem])
       = instances (resource_types st ! j)"
      by linarith
  qed
  have nonneg_av: "\<forall>j<m_of st. 0 \<le> av' ! j"
  proof (intro allI impI)
    fix j assume j: "j < m_of st"
    have "\<forall>p\<in>set (sorted_list_of_set T). 0 \<le> allocation st ! p ! j"
      using fin T f j by auto
    then have "0 \<le> sum_list (map (\<lambda>p. allocation st ! p ! j) (sorted_list_of_set T))"
      by (intro sum_list_nonneg) auto
    then show "0 \<le> av' ! j" using av'(3) j f by simp
  qed
  have "valid ?r"
    unfolding valid_iff_pointwise nr mr
    using av'(2) cons nonneg_av f nth_rem
    by (simp add: reduced_record_def)
  moreover have "build_reduced st ?rem av' = Inr ?r"
  proof -
    have "mk_SystemState (map ((!) (processes st)) ?rem) (resource_types st) av'
            (map ((!) (allocation st)) ?rem) (map ((!) (request st)) ?rem) = Inr ?r"
      using \<open>valid ?r\<close> by (simp add: mk_SystemState_def valid_def reduced_record_def)
    moreover have "select_rows (processes st) ?rem = Inr (map ((!) (processes st)) ?rem)"
      using rem by (intro select_rows_ok) (simp add: n_of_def)
    moreover have "select_rows (allocation st) ?rem = Inr (map ((!) (allocation st)) ?rem)"
      using rem f by (intro select_rows_ok) simp
    moreover have "select_rows (request st) ?rem = Inr (map ((!) (request st)) ?rem)"
      using rem f by (intro select_rows_ok) simp
    ultimately show ?thesis by (simp add: build_reduced_def)
  qed
  ultimately show ?thesis using av' by blast
qed

text \<open>
  C9.  For a valid state and a set of terminated ids within \<open>0..n-1\<close> that leaves some
  process, the reduced system built inside \<open>can_system_recover\<close> (terminated rows
  removed, their allocations added to \<open>available\<close>, resource types and the remaining
  request rows unchanged) passes the validation: its construction does not raise, and it
  satisfies the four invariants, conservation among them.
\<close>

theorem reduced_state_satisfies_invariants:
  assumes "valid st" "T \<subseteq> {0..<n_of st}" "remaining_pids st T \<noteq> []"
  shows "\<exists>av' st'.
           release_all (allocation st) (sorted_list_of_set T) (available st) = Inr av' \<and>
           (\<forall>j<m_of st. av' ! j = available st ! j
                           + sum_list (map (\<lambda>p. allocation st ! p ! j) (sorted_list_of_set T))) \<and>
           build_reduced st (remaining_pids st T) av' = Inr st' \<and>
           st' = reduced_record st (remaining_pids st T) av' \<and>
           inv_dimensions st' \<and> inv_nonnegative st' \<and> inv_conservation st' \<and> inv_bounded st'"
proof -
  from reduced_state_valid [OF assms(1,2)]
  obtain av' where av': "release_all (allocation st) (sorted_list_of_set T) (available st) = Inr av'"
    "build_reduced st (remaining_pids st T) av' = Inr (reduced_record st (remaining_pids st T) av')"
    "valid (reduced_record st (remaining_pids st T) av')"
    "\<forall>j<m_of st. av' ! j = available st ! j
        + sum_list (map (\<lambda>p. allocation st ! p ! j) (sorted_list_of_set T))"
    by blast
  from av'(3) have "invariants (reduced_record st (remaining_pids st T) av')"
    by (simp add: valid_iff_invariants)
  with av' show ?thesis unfolding invariants_def by blast
qed

theorem reduced_state_satisfies_invariants_witness:
  "valid scenario_A \<and> {0} \<subseteq> {0..<n_of scenario_A} \<and> remaining_pids scenario_A {0} \<noteq> [] \<and>
   (\<exists>av' st'.
      release_all (allocation scenario_A) (sorted_list_of_set {0}) (available scenario_A) = Inr av' \<and>
      build_reduced scenario_A (remaining_pids scenario_A {0}) av' = Inr st' \<and>
      inv_conservation st')"
proof -
  have v: "valid scenario_A" by (rule valid_scenario_A)
  have n: "n_of scenario_A = 3" by (simp add: n_of_def scenario_A_def)
  have t: "{0} \<subseteq> {0..<n_of scenario_A}" by (simp add: n)
  have r: "remaining_pids scenario_A {0} \<noteq> []"
    by (simp add: remaining_pids_def n upt_rec)
  from reduced_state_satisfies_invariants [OF v t r] v t r show ?thesis by blast
qed

section \<open>Recovery by terminating the deadlocked processes\<close>

lemma work_after_snoc:
  "work_after st (xs @ [x]) = vector_add (work_after st xs) (allocation st ! x)"
  by (simp add: work_after_def)

lemma work_after_props:
  assumes "valid st" "\<forall>i\<in>set xs. i < n_of st"
  shows "length (work_after st xs) = m_of st \<and>
         (\<forall>j<m_of st. work_after st xs ! j
             = available st ! j + sum_list (map (\<lambda>i. allocation st ! i ! j) xs))"
  using assms(2)
proof (induction xs rule: rev_induct)
  case Nil
  then show ?case using valid_dims(1) [OF assms(1)] by (simp add: work_after_def)
next
  case (snoc x xs)
  then have IH: "length (work_after st xs) = m_of st"
    "\<forall>j<m_of st. work_after st xs ! j
        = available st ! j + sum_list (map (\<lambda>i. allocation st ! i ! j) xs)"
    by simp_all
  have x: "length (allocation st ! x) = m_of st"
    using snoc.prems valid_dims(4) [OF assms(1)] by simp
  show ?case
    unfolding work_after_snoc using IH x
    by (simp add: vector_add_length vector_add_nth)
qed

lemma loop_inv_order_bound: "loop_inv st s \<Longrightarrow> \<forall>i\<in>set (l_execution_order s). i < n_of st"
  by (auto simp: loop_inv_def)

lemma loop_inv_work:
  assumes "valid st" "loop_inv st s"
  shows "length (l_work s) = m_of st"
    "\<And>j. j < m_of st \<Longrightarrow> l_work s ! j
       = available st ! j + sum (\<lambda>i. allocation st ! i ! j) (set (l_execution_order s))"
proof -
  have w: "l_work s = work_after st (l_execution_order s)" and d: "distinct (l_execution_order s)"
    using assms(2) by (simp_all add: loop_inv_def)
  note p = work_after_props [OF assms(1) loop_inv_order_bound [OF assms(2)]]
  show "length (l_work s) = m_of st" using p w by simp
  fix j assume "j < m_of st"
  then show "l_work s ! j
       = available st ! j + sum (\<lambda>i. allocation st ! i ! j) (set (l_execution_order s))"
    using p w d by (simp add: sum_list_distinct_conv_sum_set)
qed

lemma reduced_all_finish:
  assumes v: "valid st" and fin: "matrix_final st s r"
    and rem: "rem = remaining_pids st (deadlocked_processes r)"
    and v': "valid (reduced_record st rem av')"
    and av: "\<forall>j<m_of st. available st ! j \<le> av' ! j"
    and fin': "matrix_final (reduced_record st rem av') s' r'"
  shows "deadlocked_processes r' = {}"
proof (rule ccontr)
  let ?st' = "reduced_record st rem av'"
  let ?o = "l_execution_order s" and ?o' = "l_execution_order s'"
  have inv: "loop_inv st s" and inv': "loop_inv ?st' s'"
    using fin fin' by (simp_all add: matrix_final_def)
  have n': "n_of ?st' = length rem" and m': "m_of ?st' = m_of st"
    by (simp_all add: reduced_record_def n_of_def m_of_def)
  have D: "deadlocked_processes r = {i. i < n_of st \<and> \<not> l_finish s ! i}"
    and D': "deadlocked_processes r' = {i. i < length rem \<and> \<not> l_finish s' ! i}"
    using fin fin' n' by (simp_all add: matrix_final_def)
  have so: "set ?o = {i. i < n_of st \<and> l_finish s ! i}"
    and so': "set ?o' = {i. i < length rem \<and> l_finish s' ! i}"
    and d: "distinct ?o" and d': "distinct ?o'"
    using inv inv' n' by (simp_all add: loop_inv_def)
  have set_rem: "set rem = set ?o" unfolding rem remaining_pids_def D so by auto
  have drem: "distinct rem" unfolding rem remaining_pids_def by simp
  have rem_bound: "\<And>q. q < length rem \<Longrightarrow> rem ! q < n_of st"
    using set_rem so nth_mem by blast
  assume "deadlocked_processes r' \<noteq> {}"
  then obtain q0 where q0: "q0 < length rem" "\<not> l_finish s' ! q0" using D' by auto
  define K where "K = {k. k < length ?o \<and> (\<exists>q<length rem. \<not> l_finish s' ! q \<and> rem ! q = ?o ! k)}"
  have "rem ! q0 \<in> set ?o" using q0(1) set_rem nth_mem by blast
  then obtain k0 where "k0 < length ?o" "?o ! k0 = rem ! q0" by (auto simp: in_set_conv_nth)
  then have "k0 \<in> K" using q0 by (auto simp: K_def)
  define k where "k = (LEAST k. k \<in> K)"
  have kK: "k \<in> K" unfolding k_def using \<open>k0 \<in> K\<close> by (rule LeastI)
  have kmin: "\<And>k'. k' < k \<Longrightarrow> k' \<notin> K" unfolding k_def by (rule not_less_Least)
  from kK obtain q where q: "q < length rem" "\<not> l_finish s' ! q" "rem ! q = ?o ! k"
    and klen: "k < length ?o" by (auto simp: K_def)
  have sub: "set (take k ?o) \<subseteq> (\<lambda>q. rem ! q) ` set ?o'"
  proof
    fix x assume "x \<in> set (take k ?o)"
    then obtain k' where k': "k' < k" "x = ?o ! k'" using klen
      by (auto simp: in_set_conv_nth)
    then have "x \<in> set rem" using klen set_rem by simp
    then obtain q' where q': "q' < length rem" "rem ! q' = x" by (auto simp: in_set_conv_nth)
    have "k' \<notin> K" using kmin k'(1) .
    then have "l_finish s' ! q'" using q' k' klen by (auto simp: K_def)
    then have "q' \<in> set ?o'" using so' q'(1) by simp
    then show "x \<in> (\<lambda>q. rem ! q) ` set ?o'" using q'(2) by blast
  qed
  have o'_bound: "\<forall>i\<in>set ?o'. i < length rem" using so' by simp
  have inj: "inj_on (\<lambda>q. rem ! q) (set ?o')"
    using drem o'_bound by (auto simp: inj_on_def nth_eq_iff_index_eq)
  note f = v [unfolded valid_iff_pointwise]
  have take_bound: "\<forall>i\<in>set (take k ?o). i < n_of st"
    using loop_inv_order_bound [OF inv] in_set_takeD by fast
  have le: "request ?st' ! q ! j \<le> l_work s' ! j" if j: "j < m_of st" for j
  proof -
    let ?g = "\<lambda>i. allocation st ! i ! j"
    have "l_work s' ! j = available ?st' ! j + sum (\<lambda>i. allocation ?st' ! i ! j) (set ?o')"
      using loop_inv_work(2) [OF v' inv'] j m' by simp
    also have "\<dots> = av' ! j + sum (\<lambda>q. ?g (rem ! q)) (set ?o')"
      using o'_bound by (simp add: reduced_record_def)
    also have "sum (\<lambda>q. ?g (rem ! q)) (set ?o') = sum ?g ((\<lambda>q. rem ! q) ` set ?o')"
      using inj by (simp add: sum.reindex)
    finally have w': "l_work s' ! j = av' ! j + sum ?g ((\<lambda>q. rem ! q) ` set ?o')" .
    have nonneg: "\<forall>b\<in>(\<lambda>q. rem ! q) ` set ?o' - set (take k ?o). 0 \<le> ?g b"
      using f j rem_bound o'_bound by auto
    have "sum ?g (set (take k ?o)) \<le> sum ?g ((\<lambda>q. rem ! q) ` set ?o')"
      by (rule sum_mono2) (use sub nonneg in auto)
    moreover have "work_after st (take k ?o) ! j = available st ! j + sum ?g (set (take k ?o))"
      using work_after_props [OF v take_bound] j d
      by (simp add: sum_list_distinct_conv_sum_set)
    moreover have "available st ! j \<le> av' ! j" using av j by simp
    ultimately have "work_after st (take k ?o) ! j \<le> l_work s' ! j" using w' by linarith
    moreover have "vector_less_equal (request st ! (?o ! k)) (work_after st (take k ?o))"
      using inv klen by (simp add: loop_inv_def)
    then have "request st ! (?o ! k) ! j \<le> work_after st (take k ?o) ! j"
    proof -
      have "?o ! k < n_of st" using loop_inv_order_bound [OF inv] klen nth_mem by blast
      then have "length (request st ! (?o ! k)) = m_of st" using f by simp
      moreover have "length (work_after st (take k ?o)) = m_of st"
        using work_after_props [OF v take_bound] by simp
      ultimately show ?thesis
        using \<open>vector_less_equal (request st ! (?o ! k)) (work_after st (take k ?o))\<close> j
        by (simp add: vector_less_equal_iff)
    qed
    moreover have "request ?st' ! q = request st ! (?o ! k)"
      using q by (simp add: reduced_record_def)
    ultimately show ?thesis by simp
  qed
  have "length (request ?st' ! q) = m_of st"
    using v' [unfolded valid_iff_pointwise] q(1) n' m' by simp
  moreover have "length (l_work s') = m_of st" using loop_inv_work(1) [OF v' inv'] m' by simp
  ultimately have "vector_less_equal (request ?st' ! q) (l_work s')"
    using le by (simp add: vector_less_equal_iff)
  then have "eligible ?st' s' q" using q(2) by (simp add: eligible_def)
  moreover have "\<not> eligible ?st' s' q" using fin' q(1) n' by (simp add: matrix_final_def)
  ultimately show False by simp
qed

lemma check_reduced_result:
  assumes v': "valid st'" and len: "n_of st' = length rem"
  shows "\<exists>r' s' tr'. detect_deadlock_matrix st' = Inr r' \<and> matrix_final st' s' r' \<and>
           check_reduced st' rem tr = Inr (\<not> deadlocked r', tr')"
proof -
  from detect_matrix_result valid_rows [OF v']
  obtain r' s' where r': "detect_deadlock_matrix st' = Inr r'" "matrix_final st' s' r'" by blast
  have "\<forall>i\<in>set (execution_order r'). i < length rem"
    using r'(2) len loop_inv_order_bound [of st' s'] by (simp add: matrix_final_def)
  then have "select_rows rem (execution_order r') = Inr (map ((!) rem) (execution_order r'))"
    by (rule select_rows_ok)
  then have "\<exists>tr'. check_reduced st' rem tr = Inr (\<not> deadlocked r', tr')"
    using r'(1) by (simp add: check_reduced_def)
  with r' show ?thesis by blast
qed

lemma can_system_recover_total:
  assumes "valid st" "T \<subseteq> {0..<n_of st}"
  shows "\<exists>b tr. can_system_recover st T = Inr (b, tr)"
proof -
  from reduced_state_valid [OF assms]
  obtain av' where av': "release_all (allocation st) (sorted_list_of_set T) (available st) = Inr av'"
    "build_reduced st (remaining_pids st T) av' = Inr (reduced_record st (remaining_pids st T) av')"
    "valid (reduced_record st (remaining_pids st T) av')"
    by blast
  have "n_of (reduced_record st (remaining_pids st T) av') = length (remaining_pids st T)"
    by (simp add: reduced_record_def n_of_def)
  from check_reduced_result [OF av'(3) this] av'(1,2) show ?thesis
    unfolding can_system_recover_def Let_def by (auto split: if_splits) metis
qed

section \<open>One round of the matrix detector\<close>







section \<open>Terminating the deadlocked processes recovers the system\<close>

text \<open>
  C4.  When the matrix detector reports a deadlock on a valid state, terminating every
  process it left unfinished recovers the system.  The allocations of the deadlocked
  processes are released into \<open>available\<close>; the remaining processes are the finished
  ones.  If none remains the answer is true at once.  Otherwise the reduced system is
  built, the detector returns on it without a deadlock, every remaining process finishes
  there, and \<open>can_system_recover\<close> returns true with the execution order of the reduced
  system, mapped back to the original ids, in its trace.
\<close>

theorem recovery_soundness:
  assumes v: "valid st" and r: "detect_deadlock_matrix st = Inr r" and dl: "deadlocked r"
  shows "\<exists>av'. release_all (allocation st) (sorted_list_of_set (deadlocked_processes r))
                   (available st) = Inr av' \<and>
           (\<forall>j<m_of st. av' ! j = available st ! j
              + sum_list (map (\<lambda>p. allocation st ! p ! j)
                            (sorted_list_of_set (deadlocked_processes r)))) \<and>
           set (remaining_pids st (deadlocked_processes r)) = {i. i < n_of st \<and> finish r ! i} \<and>
           (if remaining_pids st (deadlocked_processes r) = []
            then can_system_recover st (deadlocked_processes r)
                   = Inr (True, recovery_header (deadlocked_processes r) av'
                                  @ [''  All processes terminated.''])
            else \<exists>r'. build_reduced st (remaining_pids st (deadlocked_processes r)) av'
                         = Inr (reduced_record st (remaining_pids st (deadlocked_processes r)) av') \<and>
                       detect_deadlock_matrix
                           (reduced_record st (remaining_pids st (deadlocked_processes r)) av')
                         = Inr r' \<and>
                       \<not> deadlocked r' \<and> deadlocked_processes r' = {} \<and>
                       length (finish r') = length (remaining_pids st (deadlocked_processes r)) \<and>
                       (\<forall>i<length (remaining_pids st (deadlocked_processes r)). finish r' ! i) \<and>
                       distinct (execution_order r') \<and>
                       set (execution_order r')
                         = {0..<length (remaining_pids st (deadlocked_processes r))} \<and>
                       can_system_recover st (deadlocked_processes r)
                         = Inr (True, recovery_header (deadlocked_processes r) av'
                                  @ [''  Remaining processes can all finish!'',
                                     ''  Execution order: ''
                                       @ join ('' '' @ arrow @ '' '')
                                           (map pname
                                              (map ((!) (remaining_pids st (deadlocked_processes r)))
                                                   (execution_order r')))]))"
proof -
  let ?D = "deadlocked_processes r"
  let ?rem = "remaining_pids st ?D"
  from detect_matrix_result [of st] valid_rows [OF v] r
  obtain s where fin: "matrix_final st s r" by auto
  then have fr: "finish r = l_finish s"
    and dp: "deadlocked_processes r = {i. i < n_of st \<and> \<not> l_finish s ! i}"
    unfolding matrix_final_def by blast+
  have Deq: "deadlocked_processes r = {i. i < n_of st \<and> \<not> finish r ! i}"
    unfolding fr by (rule dp)
  have D: "?D \<subseteq> {0..<n_of st}" unfolding dp by auto
  then have finD: "finite ?D" using finite_subset by blast
  have setrem: "set ?rem = {i. i < n_of st \<and> finish r ! i}"
    unfolding remaining_pids_def fr dp by auto
  from reduced_state_valid [OF v D]
  obtain av' where av': "release_all (allocation st) (sorted_list_of_set ?D) (available st) = Inr av'"
    "build_reduced st ?rem av' = Inr (reduced_record st ?rem av')"
    "valid (reduced_record st ?rem av')"
    "\<forall>j<m_of st. av' ! j = available st ! j
        + sum_list (map (\<lambda>p. allocation st ! p ! j) (sorted_list_of_set ?D))"
    by blast
  note f = v [unfolded valid_iff_pointwise]
  have av: "\<forall>j<m_of st. available st ! j \<le> av' ! j"
  proof (intro allI impI)
    fix j assume j: "j < m_of st"
    have "0 \<le> sum_list (map (\<lambda>p. allocation st ! p ! j) (sorted_list_of_set ?D))"
      by (intro sum_list_nonneg) (use finD D f j in auto)
    then show "available st ! j \<le> av' ! j" using av'(4) j by simp
  qed
  have branch: "if ?rem = []
            then can_system_recover st ?D
                   = Inr (True, recovery_header ?D av' @ [''  All processes terminated.''])
            else \<exists>r'. build_reduced st ?rem av' = Inr (reduced_record st ?rem av') \<and>
                       detect_deadlock_matrix (reduced_record st ?rem av') = Inr r' \<and>
                       \<not> deadlocked r' \<and> deadlocked_processes r' = {} \<and>
                       length (finish r') = length ?rem \<and>
                       (\<forall>i<length ?rem. finish r' ! i) \<and>
                       distinct (execution_order r') \<and>
                       set (execution_order r') = {0..<length ?rem} \<and>
                       can_system_recover st ?D
                         = Inr (True, recovery_header ?D av'
                                  @ [''  Remaining processes can all finish!'',
                                     ''  Execution order: ''
                                       @ join ('' '' @ arrow @ '' '')
                                           (map pname (map ((!) ?rem) (execution_order r')))])"
  proof (cases "?rem = []")
    case True
    have "can_system_recover st ?D
            = Inr (True, recovery_header ?D av' @ [''  All processes terminated.''])"
      using True av'(1) by (simp add: can_system_recover_def Let_def recovery_header_def)
    with True show ?thesis by (simp only: simp_thms if_True)
  next
    case False
    let ?st' = "reduced_record st ?rem av'"
    have n': "n_of ?st' = length ?rem" by (simp add: reduced_record_def n_of_def)
    from detect_matrix_result [of ?st'] valid_rows [OF av'(3)]
    obtain r' s' where r': "detect_deadlock_matrix ?st' = Inr r'" "matrix_final ?st' s' r'"
      by blast
    have D': "deadlocked_processes r' = {}"
      using reduced_all_finish [OF v fin refl av'(3) av r'(2)] .
    have nd: "\<not> deadlocked r'" using r'(2) D' by (simp add: matrix_final_def)
    have len: "length (finish r') = length ?rem"
      using r'(2) n' by (simp add: matrix_final_def loop_inv_def)
    have allfin: "\<forall>i<length ?rem. finish r' ! i"
      using r'(2) D' n' by (auto simp: matrix_final_def)
    have dist: "distinct (execution_order r')"
      using r'(2) by (simp add: matrix_final_def loop_inv_def)
    have seto: "set (execution_order r') = {0..<length ?rem}"
      using r'(2) n' allfin by (auto simp: matrix_final_def loop_inv_def)
    have "\<forall>i\<in>set (execution_order r'). i < length ?rem" using seto by simp
    then have sel: "select_rows ?rem (execution_order r')
                      = Inr (map ((!) ?rem) (execution_order r'))"
      by (rule select_rows_ok)
    have rec: "can_system_recover st ?D
                 = Inr (True, recovery_header ?D av'
                          @ [''  Remaining processes can all finish!'',
                             ''  Execution order: ''
                               @ join ('' '' @ arrow @ '' '')
                                   (map pname (map ((!) ?rem) (execution_order r')))])"
      using False av'(1,2) r'(1) nd sel
      by (simp add: can_system_recover_def check_reduced_def Let_def recovery_header_def)
    have "\<exists>r'. build_reduced st ?rem av' = Inr (reduced_record st ?rem av') \<and>
                       detect_deadlock_matrix (reduced_record st ?rem av') = Inr r' \<and>
                       \<not> deadlocked r' \<and> deadlocked_processes r' = {} \<and>
                       length (finish r') = length ?rem \<and>
                       (\<forall>i<length ?rem. finish r' ! i) \<and>
                       distinct (execution_order r') \<and>
                       set (execution_order r') = {0..<length ?rem} \<and>
                       can_system_recover st ?D
                         = Inr (True, recovery_header ?D av'
                                  @ [''  Remaining processes can all finish!'',
                                     ''  Execution order: ''
                                       @ join ('' '' @ arrow @ '' '')
                                           (map pname (map ((!) ?rem) (execution_order r')))])"
      by (intro exI [of _ r'] conjI) (rule av'(2) r'(1) nd D' len allfin dist seto rec)+
    with False show ?thesis by (simp only: if_False)
  qed
  show ?thesis
    by (intro exI [of _ av'] conjI) (rule av'(1) av'(4) setrem branch)+
qed

theorem recovery_soundness_witness:
  "valid partial_deadlock \<and>
   (\<exists>r. detect_deadlock_matrix partial_deadlock = Inr r \<and> deadlocked r \<and>
        deadlocked_processes r = {0, 1} \<and>
        remaining_pids partial_deadlock (deadlocked_processes r) = [2] \<and>
        (\<exists>av' r'.
           release_all (allocation partial_deadlock) (sorted_list_of_set (deadlocked_processes r))
             (available partial_deadlock) = Inr av' \<and>
           detect_deadlock_matrix
             (reduced_record partial_deadlock
                (remaining_pids partial_deadlock (deadlocked_processes r)) av') = Inr r' \<and>
           \<not> deadlocked r' \<and>
           can_system_recover partial_deadlock (deadlocked_processes r)
             = Inr (True, recovery_header (deadlocked_processes r) av'
                      @ [''  Remaining processes can all finish!'',
                         ''  Execution order: ''
                           @ join ('' '' @ arrow @ '' '')
                               (map pname
                                  (map ((!) (remaining_pids partial_deadlock
                                               (deadlocked_processes r)))
                                       (execution_order r')))]) \<and>
           av' = [1, 1, 1] \<and> execution_order r' = [0] \<and> finish r' = [True])) \<and>
   can_system_recover partial_deadlock {0, 1}
     = Inr (True, [''Checking recovery by terminating: {P0, P1}'',
                   ''  Released resources: [1, 1, 1]'',
                   ''  Remaining processes can all finish!'',
                   ''  Execution order: P2''])"
proof -
  have v: "valid partial_deadlock" by (simp add: valid_def post_init_def partial_deadlock_def)
  from detect_matrix_result [of partial_deadlock] valid_rows [OF v]
  obtain r where r: "detect_deadlock_matrix partial_deadlock = Inr r" by blast
  have "case detect_deadlock_matrix partial_deadlock of
          Inl e \<Rightarrow> False
        | Inr r \<Rightarrow> deadlocked r \<and> deadlocked_processes r = {0, 1}"
    by code_simp
  then have d: "deadlocked r" "deadlocked_processes r = {0, 1}"
    by (simp_all only: r sum.case)
  have rem: "remaining_pids partial_deadlock {0, 1} = [2]" by code_simp
  have ne: "remaining_pids partial_deadlock (deadlocked_processes r) \<noteq> []"
    unfolding d(2) rem by simp
  from recovery_soundness [OF v r d(1)]
  obtain av' where av': "release_all (allocation partial_deadlock)
        (sorted_list_of_set (deadlocked_processes r)) (available partial_deadlock) = Inr av'"
    and br: "if remaining_pids partial_deadlock (deadlocked_processes r) = []
            then can_system_recover partial_deadlock (deadlocked_processes r)
                   = Inr (True, recovery_header (deadlocked_processes r) av'
                                  @ [''  All processes terminated.''])
            else \<exists>r'. build_reduced partial_deadlock
                         (remaining_pids partial_deadlock (deadlocked_processes r)) av'
                         = Inr (reduced_record partial_deadlock
                                  (remaining_pids partial_deadlock (deadlocked_processes r)) av') \<and>
                       detect_deadlock_matrix
                           (reduced_record partial_deadlock
                              (remaining_pids partial_deadlock (deadlocked_processes r)) av')
                         = Inr r' \<and>
                       \<not> deadlocked r' \<and> deadlocked_processes r' = {} \<and>
                       length (finish r')
                         = length (remaining_pids partial_deadlock (deadlocked_processes r)) \<and>
                       (\<forall>i<length (remaining_pids partial_deadlock (deadlocked_processes r)).
                          finish r' ! i) \<and>
                       distinct (execution_order r') \<and>
                       set (execution_order r')
                         = {0..<length (remaining_pids partial_deadlock (deadlocked_processes r))} \<and>
                       can_system_recover partial_deadlock (deadlocked_processes r)
                         = Inr (True, recovery_header (deadlocked_processes r) av'
                                  @ [''  Remaining processes can all finish!'',
                                     ''  Execution order: ''
                                       @ join ('' '' @ arrow @ '' '')
                                           (map pname
                                              (map ((!) (remaining_pids partial_deadlock
                                                           (deadlocked_processes r)))
                                                   (execution_order r')))])"
    by (elim exE conjE)
  from br ne obtain r' where r':
    "detect_deadlock_matrix
       (reduced_record partial_deadlock
          (remaining_pids partial_deadlock (deadlocked_processes r)) av') = Inr r'"
    "\<not> deadlocked r'"
    "can_system_recover partial_deadlock (deadlocked_processes r)
       = Inr (True, recovery_header (deadlocked_processes r) av'
                @ [''  Remaining processes can all finish!'',
                   ''  Execution order: ''
                     @ join ('' '' @ arrow @ '' '')
                         (map pname
                            (map ((!) (remaining_pids partial_deadlock (deadlocked_processes r)))
                                 (execution_order r')))])"
    by (simp only: if_False) (elim exE conjE)
  have remr: "remaining_pids partial_deadlock (deadlocked_processes r) = [2]"
    unfolding d(2) by (rule rem)
  have "release_all (allocation partial_deadlock) (sorted_list_of_set {0, 1})
          (available partial_deadlock) = Inr [1, 1, 1]"
    by code_simp
  with av' have avc: "av' = [1, 1, 1]" unfolding d(2) by (simp only: sum.inject)
  have "case detect_deadlock_matrix (reduced_record partial_deadlock [2] [1, 1, 1]) of
          Inl e \<Rightarrow> False
        | Inr r' \<Rightarrow> execution_order r' = [0] \<and> finish r' = [True]"
    by code_simp
  with r'(1) have oc: "execution_order r' = [0]" "finish r' = [True]"
    unfolding remr avc by (simp_all only: sum.case)
  have tc: "can_system_recover partial_deadlock {0, 1}
     = Inr (True, [''Checking recovery by terminating: {P0, P1}'',
                   ''  Released resources: [1, 1, 1]'',
                   ''  Remaining processes can all finish!'',
                   ''  Execution order: P2''])"
    by code_simp
  have inner: "\<exists>r. detect_deadlock_matrix partial_deadlock = Inr r \<and> deadlocked r \<and>
        deadlocked_processes r = {0, 1} \<and>
        remaining_pids partial_deadlock (deadlocked_processes r) = [2] \<and>
        (\<exists>av' r'.
           release_all (allocation partial_deadlock) (sorted_list_of_set (deadlocked_processes r))
             (available partial_deadlock) = Inr av' \<and>
           detect_deadlock_matrix
             (reduced_record partial_deadlock
                (remaining_pids partial_deadlock (deadlocked_processes r)) av') = Inr r' \<and>
           \<not> deadlocked r' \<and>
           can_system_recover partial_deadlock (deadlocked_processes r)
             = Inr (True, recovery_header (deadlocked_processes r) av'
                      @ [''  Remaining processes can all finish!'',
                         ''  Execution order: ''
                           @ join ('' '' @ arrow @ '' '')
                               (map pname
                                  (map ((!) (remaining_pids partial_deadlock
                                               (deadlocked_processes r)))
                                       (execution_order r')))]) \<and>
           av' = [1, 1, 1] \<and> execution_order r' = [0] \<and> finish r' = [True])"
    apply (rule exI [of _ r])
    apply (intro conjI)
        apply (rule r)
       apply (rule d(1))
      apply (rule d(2))
     apply (rule remr)
    apply (rule exI [of _ av'])
    apply (rule exI [of _ r'])
    apply (intro conjI)
          apply (rule av')
         apply (rule r'(1))
        apply (rule r'(2))
       apply (rule r'(3))
      apply (rule avc)
     apply (rule oc(1))
    apply (rule oc(2))
    done
  show ?thesis
    by (intro conjI) (rule v inner tc)+
qed

section \<open>The minimal termination sets of the recovery advisor\<close>

lemma combinations_sound:
  "c \<in> set (combinations xs k) \<Longrightarrow>
     length c = k \<and> set c \<subseteq> set xs \<and> (distinct xs \<longrightarrow> distinct c)"
proof (induction xs k arbitrary: c rule: combinations.induct)
  case (1 xs)
  then show ?case by simp
next
  case (2 k)
  then show ?case by simp
next
  case (3 x xs k)
  from "3.prems" consider c' where "c = x # c'" "c' \<in> set (combinations xs k)"
    | "c \<in> set (combinations xs (Suc k))" by auto
  then show ?case
  proof cases
    case 1
    from "3.IH"(1) [OF 1(2)] 1(1) show ?thesis by auto
  next
    case 2
    from "3.IH"(2) [OF 2] show ?thesis by auto
  qed
qed

lemma combinations_complete:
  "distinct xs \<Longrightarrow> S \<subseteq> set xs \<Longrightarrow> filter (\<lambda>x. x \<in> S) xs \<in> set (combinations xs (card S))"
proof (induction xs arbitrary: S)
  case Nil
  then show ?case by simp
next
  case (Cons x xs)
  have finS: "finite S" using Cons.prems(2) finite_subset by blast
  show ?case
  proof (cases "x \<in> S")
    case True
    let ?S = "S - {x}"
    have sub: "?S \<subseteq> set xs" using Cons.prems by auto
    have c: "card S = Suc (card ?S)" by (rule card_Suc_Diff1 [OF finS True, symmetric])
    have "filter (\<lambda>y. y \<in> S) xs = filter (\<lambda>y. y \<in> ?S) xs"
      using Cons.prems(1) by (intro filter_cong) auto
    then have "filter (\<lambda>y. y \<in> S) (x # xs) = x # filter (\<lambda>y. y \<in> ?S) xs" using True by simp
    moreover have "filter (\<lambda>y. y \<in> ?S) xs \<in> set (combinations xs (card ?S))"
      using Cons.IH [OF _ sub] Cons.prems(1) by simp
    ultimately show ?thesis unfolding c by simp
  next
    case False
    then have sub: "S \<subseteq> set xs" using Cons.prems(2) by auto
    have IH: "filter (\<lambda>y. y \<in> S) xs \<in> set (combinations xs (card S))"
      using Cons.IH [OF _ sub] Cons.prems(1) by simp
    show ?thesis
    proof (cases "card S")
      case 0
      then have "S = {}" using finS by simp
      then show ?thesis by simp
    next
      case (Suc k)
      then show ?thesis using IH False by simp
    qed
  qed
qed

lemma combinations_sets:
  assumes "distinct xs"
  shows "set ` set (combinations xs k) = {S. S \<subseteq> set xs \<and> card S = k}"
proof (intro set_eqI iffI)
  fix S assume "S \<in> set ` set (combinations xs k)"
  then obtain c where c: "c \<in> set (combinations xs k)" "S = set c" by blast
  from combinations_sound [OF c(1)] assms c(2)
  show "S \<in> {S. S \<subseteq> set xs \<and> card S = k}" by (simp add: distinct_card)
next
  fix S assume "S \<in> {S. S \<subseteq> set xs \<and> card S = k}"
  then have S: "S \<subseteq> set xs" "card S = k" by simp_all
  have e: "S = set (filter (\<lambda>x. x \<in> S) xs)" using S(1) by auto
  have "filter (\<lambda>x. x \<in> S) xs \<in> set (combinations xs k)"
    using combinations_complete [OF assms S(1)] S(2) by simp
  then show "S \<in> set ` set (combinations xs k)" using e by (rule rev_image_eqI)
qed

lemma combinations_sorted:
  fixes xs :: "'a :: linorder list"
  shows "c \<in> set (combinations xs k) \<Longrightarrow> sorted xs \<Longrightarrow> sorted c"
proof (induction xs k arbitrary: c rule: combinations.induct)
  case (1 xs)
  then show ?case by simp
next
  case (2 k)
  then show ?case by simp
next
  case (3 x xs k)
  have sx: "sorted xs" and le: "\<forall>y\<in>set xs. x \<le> y" using "3.prems"(2) by simp_all
  from "3.prems"(1) consider c' where "c = x # c'" "c' \<in> set (combinations xs k)"
    | "c \<in> set (combinations xs (Suc k))" by auto
  then show ?case
  proof cases
    case 1
    have "set c' \<subseteq> set xs" using combinations_sound [OF 1(2)] by simp
    with le have "\<forall>y\<in>set c'. x \<le> y" by blast
    with "3.IH"(1) [OF 1(2) sx] 1(1) show ?thesis by simp
  next
    case 2
    from "3.IH"(2) [OF 2 sx] show ?thesis .
  qed
qed

lemma combinations_lex:
  fixes xs :: "'a :: linorder list"
  shows "sorted xs \<Longrightarrow> distinct xs \<Longrightarrow>
     sorted_wrt (\<lambda>a b. (a, b) \<in> lexord {(x, y). x < y}) (combinations xs k)"
proof (induction xs k rule: combinations.induct)
  case (1 xs)
  then show ?case by simp
next
  case (2 k)
  then show ?case by simp
next
  case (3 x xs k)
  have sx: "sorted xs" and dx: "distinct xs" and lt: "\<forall>y\<in>set xs. x < y"
    using "3.prems" by (auto simp: order_less_le)
  have a: "sorted_wrt (\<lambda>a b. (a, b) \<in> lexord {(x, y). x < y}) (map ((#) x) (combinations xs k))"
    using "3.IH"(1) [OF sx dx] by (simp add: sorted_wrt_map)
  have b: "sorted_wrt (\<lambda>a b. (a, b) \<in> lexord {(x, y). x < y}) (combinations xs (Suc k))"
    using "3.IH"(2) [OF sx dx] .
  have c: "(u, w) \<in> lexord {(x, y). x < y}"
    if "u \<in> set (map ((#) x) (combinations xs k))" "w \<in> set (combinations xs (Suc k))" for u w
  proof -
    from that(1) obtain u' where u: "u = x # u'" by auto
    from combinations_sound [OF that(2)] have w: "length w = Suc k" "set w \<subseteq> set xs" by simp_all
    then obtain y w' where yw: "w = y # w'" by (cases w) auto
    with w(2) lt have "x < y" by simp
    then show ?thesis unfolding u yw by simp
  qed
  show ?case
    unfolding combinations.simps sorted_wrt_append using a b c by blast
qed

lemma can_system_recover_eq:
  assumes "valid st" "T \<subseteq> {0..<n_of st}"
  shows "can_system_recover st T = Inr (recovers st T, recovery_trace st T)"
  using can_system_recover_total [OF assms]
  by (auto simp: recovers_def recovery_trace_def)

lemma try_subsets_eq:
  assumes "valid st"
  shows "\<forall>c\<in>set subs. set c \<subseteq> {0..<n_of st} \<Longrightarrow>
     try_subsets st subs acc =
       Inr (acc @ map (\<lambda>c. terminate_suggestion (set c) (recovery_trace st (set c)))
                    (filter (\<lambda>c. recovers st (set c)) subs))"
proof (induction subs arbitrary: acc)
  case Nil
  then show ?case by simp
next
  case (Cons c subs)
  then show ?case using can_system_recover_eq [OF assms, of "set c"] by simp
qed

lemma search_sizes_eq:
  assumes "valid st" "set ids \<subseteq> {0..<n_of st}"
  shows "search_sizes st ids ks [] =
     Inr (case find (\<lambda>k. recovering_subsets st ids k \<noteq> []) ks of None \<Rightarrow> []
          | Some k \<Rightarrow> map (\<lambda>c. terminate_suggestion (set c) (recovery_trace st (set c)))
                        (recovering_subsets st ids k))"
proof (induction ks)
  case Nil
  then show ?case by simp
next
  case (Cons k ks)
  have "\<forall>c\<in>set (combinations ids k). set c \<subseteq> {0..<n_of st}"
    using combinations_sound assms(2) by blast
  from try_subsets_eq [OF assms(1) this, of "[]"] Cons show ?case
    by (simp add: recovering_subsets_def)
qed

lemma find_upt_from:
  "find P [a..<b] = Some k \<longleftrightarrow> a \<le> k \<and> k < b \<and> P k \<and> (\<forall>j. a \<le> j \<and> j < k \<longrightarrow> \<not> P j)"
proof
  assume "find P [a..<b] = Some k"
  then obtain i where i: "i < length [a..<b]" "P ([a..<b] ! i)" "k = [a..<b] ! i"
    "\<forall>j<i. \<not> P ([a..<b] ! j)" unfolding find_Some_iff by blast
  then have k: "k = a + i" "i < b - a" by simp_all
  have "\<not> P j" if "a \<le> j" "j < k" for j
  proof -
    have "j - a < i" using that k by simp
    from i(4) [rule_format, OF this] that k show ?thesis by simp
  qed
  with i k show "a \<le> k \<and> k < b \<and> P k \<and> (\<forall>j. a \<le> j \<and> j < k \<longrightarrow> \<not> P j)" by simp
next
  assume "a \<le> k \<and> k < b \<and> P k \<and> (\<forall>j. a \<le> j \<and> j < k \<longrightarrow> \<not> P j)"
  then have r: "a \<le> k" "k < b" "P k" "\<And>j. a \<le> j \<Longrightarrow> j < k \<Longrightarrow> \<not> P j" by auto
  show "find P [a..<b] = Some k"
    unfolding find_Some_iff
  proof (intro exI [of _ "k - a"] conjI allI impI)
    show "k - a < length [a..<b]" using r by simp
    show "P ([a..<b] ! (k - a))" using r by simp
    show "k = [a..<b] ! (k - a)" using r by simp
    fix j assume "j < k - a"
    then show "\<not> P ([a..<b] ! j)" using r by simp
  qed
qed

lemma recovering_subsets_nonempty:
  assumes "distinct ids"
  shows "recovering_subsets st ids k \<noteq> [] \<longleftrightarrow>
           (\<exists>S. S \<subseteq> set ids \<and> card S = k \<and> recovers st S)"
proof -
  have "recovering_subsets st ids k \<noteq> [] \<longleftrightarrow> (\<exists>c\<in>set (combinations ids k). recovers st (set c))"
    by (auto simp: recovering_subsets_def filter_empty_conv)
  also have "\<dots> \<longleftrightarrow> (\<exists>S\<in>set ` set (combinations ids k). recovers st S)" by blast
  also have "\<dots> \<longleftrightarrow> (\<exists>S. S \<subseteq> set ids \<and> card S = k \<and> recovers st S)"
    unfolding combinations_sets [OF assms] by blast
  finally show ?thesis .
qed

lemma recovering_subsets_sets:
  assumes "distinct ids"
  shows "set (map set (recovering_subsets st ids k))
           = {S. S \<subseteq> set ids \<and> card S = k \<and> recovers st S}"
proof -
  have "set (map set (recovering_subsets st ids k))
      = {S \<in> set ` set (combinations ids k). recovers st S}"
    by (auto simp: recovering_subsets_def)
  then show ?thesis unfolding combinations_sets [OF assms] by blast
qed

lemma recovering_subsets_order:
  assumes "sorted ids" "distinct ids"
  shows "sorted_wrt (\<lambda>a b. (a, b) \<in> lexord {(x, y). x < y})
           (map (\<lambda>c. sorted_list_of_set (set c)) (recovering_subsets st ids k))"
proof -
  have "sorted_list_of_set (set c) = c" if "c \<in> set (recovering_subsets st ids k)" for c
  proof -
    from that have c: "c \<in> set (combinations ids k)" by (simp add: recovering_subsets_def)
    have "sorted c" using combinations_sorted [OF c assms(1)] .
    moreover have "distinct c" using combinations_sound [OF c] assms(2) by simp
    ultimately show ?thesis by (rule sorted_list_of_set.idem_if_sorted_distinct)
  qed
  then have "map (\<lambda>c. sorted_list_of_set (set c)) (recovering_subsets st ids k)
               = recovering_subsets st ids k"
    by (simp add: map_idI)
  moreover have "sorted_wrt (\<lambda>a b. (a, b) \<in> lexord {(x, y). x < y}) (recovering_subsets st ids k)"
    unfolding recovering_subsets_def by (rule sorted_wrt_filter) (rule combinations_lex [OF assms])
  ultimately show ?thesis by simp
qed

text \<open>
  C5, as amended.  For a valid state and a non-empty set \<open>D\<close> of process ids, the search
  returns without raising.  If some non-empty subset of \<open>D\<close> recovers the system, let
  \<open>k\<close> be the smallest size (at least 1) of such a subset: the suggestions are the
  size-\<open>k\<close> combinations of the sorted ids that recover, in the order of
  \<open>itertools.combinations\<close>; their sets are exactly the subsets of \<open>D\<close> of size \<open>k\<close>
  that recover, and no non-empty subset of \<open>D\<close> smaller than \<open>k\<close> recovers.  Otherwise
  the list is empty.  The empty subset is never tried.
\<close>

theorem minimal_termination_sets:
  assumes v: "valid st" and ne: "D \<noteq> {}" and sub: "D \<subseteq> {0..<n_of st}"
  shows "\<exists>sugs. find_minimal_termination_set st D = Inr sugs \<and>
           (if \<exists>S. S \<subseteq> D \<and> S \<noteq> {} \<and> recovers st S
            then \<exists>k. 1 \<le> k \<and> k \<le> card D \<and> sugs \<noteq> [] \<and>
                   map s_processes sugs
                     = map set (recovering_subsets st (sorted_list_of_set D) k) \<and>
                   set (map s_processes sugs) = {S. S \<subseteq> D \<and> card S = k \<and> recovers st S} \<and>
                   (\<forall>S. S \<subseteq> D \<and> S \<noteq> {} \<and> card S < k \<longrightarrow> \<not> recovers st S) \<and>
                   sorted_wrt (\<lambda>a b. (a, b) \<in> lexord {(x, y). x < y})
                     (map (\<lambda>g. sorted_list_of_set (s_processes g)) sugs) \<and>
                   (\<forall>g\<in>set sugs. g = terminate_suggestion (s_processes g)
                                            (recovery_trace st (s_processes g)))
            else sugs = [])"
proof -
  let ?ids = "sorted_list_of_set D"
  let ?P = "\<lambda>k. recovering_subsets st ?ids k \<noteq> []"
  let ?mk = "\<lambda>c. terminate_suggestion (set c) (recovery_trace st (set c))"
  have fin: "finite D" using sub finite_subset by blast
  have ids: "distinct ?ids" "set ?ids = D" using fin by simp_all
  have P: "\<And>k. ?P k \<longleftrightarrow> (\<exists>S. S \<subseteq> D \<and> card S = k \<and> recovers st S)"
    using recovering_subsets_nonempty [OF ids(1)] ids(2) by simp
  have eq: "find_minimal_termination_set st D =
     Inr (case find ?P [1..<card D + 1] of None \<Rightarrow> []
          | Some k \<Rightarrow> map ?mk (recovering_subsets st ?ids k))"
    using search_sizes_eq [OF v, of ?ids "[1..<card D + 1]"] ids(2) sub ne
    by (simp add: find_minimal_termination_set_def)
  have card_range: "1 \<le> card S \<and> card S < card D + 1" if "S \<subseteq> D" "S \<noteq> {}" for S
  proof -
    have "finite S" using that(1) fin finite_subset by blast
    then have "0 < card S" using that(2) by (simp add: card_gt_0_iff)
    moreover have "card S \<le> card D" using that(1) fin by (simp add: card_mono)
    ultimately show ?thesis by simp
  qed
  show ?thesis
  proof (cases "find ?P [1..<card D + 1]")
    case None
    then have all: "\<forall>k\<in>set [1..<card D + 1]. \<not> ?P k" unfolding find_None_iff by blast
    have no: "\<not> ?P k" if "1 \<le> k" "k < card D + 1" for k
    proof -
      have "k \<in> set [1..<card D + 1]" using that by (simp only: set_upt atLeastLessThan_iff)
      with all show ?thesis by blast
    qed
    have "\<not> (\<exists>S. S \<subseteq> D \<and> S \<noteq> {} \<and> recovers st S)"
    proof
      assume "\<exists>S. S \<subseteq> D \<and> S \<noteq> {} \<and> recovers st S"
      then obtain S where S: "S \<subseteq> D" "S \<noteq> {}" "recovers st S" by blast
      from card_range [OF S(1,2)] no [of "card S"] have "\<not> ?P (card S)" by simp
      then show False using P [of "card S"] S by blast
    qed
    then show ?thesis using eq None by simp
  next
    case (Some k)
    then have k: "1 \<le> k" "k < card D + 1" "?P k" "\<And>j. 1 \<le> j \<Longrightarrow> j < k \<Longrightarrow> \<not> ?P j"
      unfolding find_upt_from by simp_all
    have r: "find_minimal_termination_set st D = Inr (map ?mk (recovering_subsets st ?ids k))"
      using eq Some by simp
    have m: "map s_processes (map ?mk (recovering_subsets st ?ids k))
              = map set (recovering_subsets st ?ids k)"
      by (simp add: terminate_suggestion_def Let_def comp_def)
    have ex: "\<exists>S. S \<subseteq> D \<and> S \<noteq> {} \<and> recovers st S"
    proof -
      from k(3) P [of k] obtain S where S: "S \<subseteq> D" "card S = k" "recovers st S" by blast
      then have "S \<noteq> {}" using k(1) by auto
      with S show ?thesis by blast
    qed
    have minimal: "\<forall>S. S \<subseteq> D \<and> S \<noteq> {} \<and> card S < k \<longrightarrow> \<not> recovers st S"
    proof (intro allI impI)
      fix S assume S: "S \<subseteq> D \<and> S \<noteq> {} \<and> card S < k"
      then have "1 \<le> card S" using card_range by blast
      with k(4) [of "card S"] S have "\<not> ?P (card S)" by simp
      then show "\<not> recovers st S" using P [of "card S"] S by blast
    qed
    have sets: "set (map set (recovering_subsets st ?ids k))
                 = {S. S \<subseteq> D \<and> card S = k \<and> recovers st S}"
      using recovering_subsets_sets [OF ids(1)] ids(2) by simp
    let ?sugs = "map ?mk (recovering_subsets st ?ids k)"
    have nonempty: "?sugs \<noteq> []" using k(3) by simp
    have kk: "k \<le> card D" using k(2) by simp
    have sets': "set (map s_processes ?sugs) = {S. S \<subseteq> D \<and> card S = k \<and> recovers st S}"
      using sets by (simp only: m)
    have sp: "s_processes (terminate_suggestion T tr) = T" for T tr
      by (simp add: terminate_suggestion_def Let_def)
    have so: "sorted ?ids" by simp
    have e: "map (\<lambda>g. sorted_list_of_set (s_processes g)) ?sugs
            = map (\<lambda>c. sorted_list_of_set (set c)) (recovering_subsets st ?ids k)"
      by (simp add: sp comp_def)
    have ord: "sorted_wrt (\<lambda>a b. (a, b) \<in> lexord {(x, y). x < y})
                     (map (\<lambda>g. sorted_list_of_set (s_processes g)) ?sugs)"
      unfolding e by (rule recovering_subsets_order [OF so ids(1)])
    have each: "\<forall>g\<in>set ?sugs. g = terminate_suggestion (s_processes g)
                                            (recovery_trace st (s_processes g))"
      by (auto simp: terminate_suggestion_def Let_def)
    have body: "\<exists>k. 1 \<le> k \<and> k \<le> card D \<and> ?sugs \<noteq> [] \<and>
                   map s_processes ?sugs
                     = map set (recovering_subsets st (sorted_list_of_set D) k) \<and>
                   set (map s_processes ?sugs) = {S. S \<subseteq> D \<and> card S = k \<and> recovers st S} \<and>
                   (\<forall>S. S \<subseteq> D \<and> S \<noteq> {} \<and> card S < k \<longrightarrow> \<not> recovers st S) \<and>
                   sorted_wrt (\<lambda>a b. (a, b) \<in> lexord {(x, y). x < y})
                     (map (\<lambda>g. sorted_list_of_set (s_processes g)) ?sugs) \<and>
                   (\<forall>g\<in>set ?sugs. g = terminate_suggestion (s_processes g)
                                            (recovery_trace st (s_processes g)))"
      by (intro exI [of _ k] conjI) (rule k(1) kk nonempty m sets' minimal ord each)+
    show ?thesis
      apply (rule exI [of _ ?sugs])
      apply (rule conjI [OF r])
      apply (simp only: ex if_True)
      apply (rule body)
      done
  qed
qed

theorem minimal_termination_sets_witness:
  "valid two_cycles \<and> {0, 1, 2, 3} \<noteq> ({} :: nat set) \<and>
   {0, 1, 2, 3} \<subseteq> {0..<n_of two_cycles} \<and>
   (\<exists>sugs. find_minimal_termination_set two_cycles {0, 1, 2, 3} = Inr sugs \<and>
      (\<exists>S. S \<subseteq> {0, 1, 2, 3} \<and> S \<noteq> {} \<and> recovers two_cycles S) \<and>
      (\<exists>k. 1 \<le> k \<and> sugs \<noteq> [] \<and>
         set (map s_processes sugs)
           = {S. S \<subseteq> {0, 1, 2, 3} \<and> card S = k \<and> recovers two_cycles S} \<and>
         (\<forall>S. S \<subseteq> {0, 1, 2, 3} \<and> S \<noteq> {} \<and> card S < k \<longrightarrow> \<not> recovers two_cycles S)) \<and>
      map s_processes sugs = [{0, 2}, {0, 3}, {1, 2}, {1, 3}] \<and>
      map description sugs
        = [''Terminate 2 process(es): P0, P2'', ''Terminate 2 process(es): P0, P3'',
           ''Terminate 2 process(es): P1, P2'', ''Terminate 2 process(es): P1, P3'']) \<and>
   \<not> recovers two_cycles {0} \<and> \<not> recovers two_cycles {0, 1} \<and> recovers two_cycles {0, 2}"
proof -
  have v: "valid two_cycles" by (simp add: valid_def post_init_def two_cycles_def)
  have ne: "{0, 1, 2, 3} \<noteq> ({} :: nat set)" by simp
  have sub: "{0, 1, 2, 3} \<subseteq> {0..<n_of two_cycles}" by (simp add: n_of_def two_cycles_def)
  have r1: "\<not> recovers two_cycles {0}" by code_simp
  have r2: "\<not> recovers two_cycles {0, 1}" by code_simp
  have r3: "recovers two_cycles {0, 2}" by code_simp
  have ex: "\<exists>S. S \<subseteq> {0, 1, 2, 3} \<and> S \<noteq> {} \<and> recovers two_cycles S"
    using r3 by (intro exI [of _ "{0, 2}"]) simp
  from minimal_termination_sets [OF v ne sub]
  obtain sugs where s: "find_minimal_termination_set two_cycles {0, 1, 2, 3} = Inr sugs"
    and b: "if \<exists>S. S \<subseteq> {0, 1, 2, 3} \<and> S \<noteq> {} \<and> recovers two_cycles S
            then \<exists>k. 1 \<le> k \<and> k \<le> card {0, 1, 2, 3 :: nat} \<and> sugs \<noteq> [] \<and>
                   map s_processes sugs
                     = map set (recovering_subsets two_cycles
                                  (sorted_list_of_set {0, 1, 2, 3}) k) \<and>
                   set (map s_processes sugs)
                     = {S. S \<subseteq> {0, 1, 2, 3} \<and> card S = k \<and> recovers two_cycles S} \<and>
                   (\<forall>S. S \<subseteq> {0, 1, 2, 3} \<and> S \<noteq> {} \<and> card S < k
                        \<longrightarrow> \<not> recovers two_cycles S) \<and>
                   sorted_wrt (\<lambda>a b. (a, b) \<in> lexord {(x, y). x < y})
                     (map (\<lambda>g. sorted_list_of_set (s_processes g)) sugs) \<and>
                   (\<forall>g\<in>set sugs. g = terminate_suggestion (s_processes g)
                                            (recovery_trace two_cycles (s_processes g)))
            else sugs = []"
    by (elim exE conjE)
  from b ex have k: "\<exists>k. 1 \<le> k \<and> sugs \<noteq> [] \<and>
         set (map s_processes sugs)
           = {S. S \<subseteq> {0, 1, 2, 3} \<and> card S = k \<and> recovers two_cycles S} \<and>
         (\<forall>S. S \<subseteq> {0, 1, 2, 3} \<and> S \<noteq> {} \<and> card S < k \<longrightarrow> \<not> recovers two_cycles S)"
    by (simp only: if_True) blast
  have "case find_minimal_termination_set two_cycles {0, 1, 2, 3} of
          Inl e \<Rightarrow> False
        | Inr sugs \<Rightarrow>
            map s_processes sugs = [{0, 2}, {0, 3}, {1, 2}, {1, 3}] \<and>
            map description sugs
              = [''Terminate 2 process(es): P0, P2'', ''Terminate 2 process(es): P0, P3'',
                 ''Terminate 2 process(es): P1, P2'', ''Terminate 2 process(es): P1, P3'']"
    by code_simp
  then have c: "map s_processes sugs = [{0, 2}, {0, 3}, {1, 2}, {1, 3}]"
    "map description sugs
        = [''Terminate 2 process(es): P0, P2'', ''Terminate 2 process(es): P0, P3'',
           ''Terminate 2 process(es): P1, P2'', ''Terminate 2 process(es): P1, P3'']"
    by (simp_all only: s sum.case)
  have inner: "\<exists>sugs. find_minimal_termination_set two_cycles {0, 1, 2, 3} = Inr sugs \<and>
      (\<exists>S. S \<subseteq> {0, 1, 2, 3} \<and> S \<noteq> {} \<and> recovers two_cycles S) \<and>
      (\<exists>k. 1 \<le> k \<and> sugs \<noteq> [] \<and>
         set (map s_processes sugs)
           = {S. S \<subseteq> {0, 1, 2, 3} \<and> card S = k \<and> recovers two_cycles S} \<and>
         (\<forall>S. S \<subseteq> {0, 1, 2, 3} \<and> S \<noteq> {} \<and> card S < k \<longrightarrow> \<not> recovers two_cycles S)) \<and>
      map s_processes sugs = [{0, 2}, {0, 3}, {1, 2}, {1, 3}] \<and>
      map description sugs
        = [''Terminate 2 process(es): P0, P2'', ''Terminate 2 process(es): P0, P3'',
           ''Terminate 2 process(es): P1, P2'', ''Terminate 2 process(es): P1, P3'']"
    by (intro exI [of _ sugs] conjI) (rule s ex k c)+
  show ?thesis
    by (intro conjI) (rule v ne sub inner r1 r2 r3)+
qed

text \<open>
  C5 as stated fails where the state is not deadlocked for the matrix detector:
  two processes, two resource types of two instances each, one instance of each free.
  Each process holds one instance of one type and requests one of the other, so the
  wait-for graph has the cycle 0, 1 and its detector reports both processes.  The empty
  set of terminations already recovers, yet the search returns the two singletons.
\<close>

theorem minimal_termination_sets_counterexample:
  "valid multi_instance_cycle \<and>
   recovers multi_instance_cycle {} \<and>
   map_sum id (map s_processes) (find_minimal_termination_set multi_instance_cycle {0, 1})
     = Inr [{0}, {1}]"
  by code_simp

end
